theory Spec2Isabelle
  imports Main "HOL-Library.Sublist" "HOL-Library.Multiset"
begin

section \<open>Flashcard synthesis pipeline of \<^verbatim>\<open>flashcard_generator.py\<close>\<close>

text \<open>
  A shallow embedding of class \<^verbatim>\<open>FlashcardGenerator\<close>: keyword extraction, sentence
  selection, the three question generators and deck assembly.

  Python strings are modelled as \<^typ>\<open>string\<close>, restricted to ASCII: the
  character classes below are what \<^verbatim>\<open>str.isspace\<close>, \<^verbatim>\<open>str.isalnum\<close>,
  \<^verbatim>\<open>str.lower\<close> and the regular expression class \<^verbatim>\<open>\w\<close> are on ASCII
  characters.  Counts (\<^verbatim>\<open>num_keywords\<close>, \<^verbatim>\<open>num_mcq\<close>, ...) are natural numbers:
  the callers pass slider values and defaults, all positive.
\<close>

subsection \<open>Python string operations\<close>

definition is_space :: "char \<Rightarrow> bool" where
  \<comment> \<open>\<^verbatim>\<open>str.isspace\<close> on ASCII: TAB, LF, VT, FF, CR, FS, GS, RS, US and the blank.\<close>
  "is_space c \<longleftrightarrow>
     c \<in> set [CHR 0x09, CHR 0x0A, CHR 0x0B, CHR 0x0C, CHR 0x0D,
              CHR 0x1C, CHR 0x1D, CHR 0x1E, CHR 0x1F, CHR '' '']"

definition is_alnum_char :: "char \<Rightarrow> bool" where
  "is_alnum_char c \<longleftrightarrow>
     c \<in> set ''abcdefghijklmnopqrstuvwxyzABCDEFGHIJKLMNOPQRSTUVWXYZ0123456789''"

definition is_word_char :: "char \<Rightarrow> bool" where
  \<comment> \<open>the class \<^verbatim>\<open>\w\<close>\<close>
  "is_word_char c \<longleftrightarrow> is_alnum_char c \<or> c = CHR ''_''"

definition lower_char :: "char \<Rightarrow> char" where
  "lower_char c =
     (case map_of (zip ''ABCDEFGHIJKLMNOPQRSTUVWXYZ'' ''abcdefghijklmnopqrstuvwxyz'') c of
        Some d \<Rightarrow> d
      | None \<Rightarrow> c)"

definition str_lower :: "string \<Rightarrow> string" where
  "str_lower s = map lower_char s"

definition str_isalnum :: "string \<Rightarrow> bool" where
  \<comment> \<open>\<^verbatim>\<open>s.isalnum()\<close>: false on the empty string\<close>
  "str_isalnum s \<longleftrightarrow> s \<noteq> [] \<and> list_all is_alnum_char s"

definition str_strip :: "string \<Rightarrow> string" where
  "str_strip s = rev (dropWhile is_space (rev (dropWhile is_space s)))"

fun split_ws :: "string \<Rightarrow> string \<Rightarrow> string list" where
  "split_ws cur [] = (if cur = [] then [] else [cur])"
| "split_ws cur (c # cs) =
     (if is_space c then (if cur = [] then split_ws [] cs else cur # split_ws [] cs)
      else split_ws (cur @ [c]) cs)"

definition str_split :: "string \<Rightarrow> string list" where
  \<comment> \<open>\<^verbatim>\<open>s.split()\<close>: the maximal runs of non-whitespace characters\<close>
  "str_split s = split_ws [] s"

fun split_sep :: "char \<Rightarrow> string \<Rightarrow> string \<Rightarrow> string list" where
  "split_sep sep cur [] = [cur]"
| "split_sep sep cur (c # cs) =
     (if c = sep then cur # split_sep sep [] cs else split_sep sep (cur @ [c]) cs)"

definition str_split_on :: "char \<Rightarrow> string \<Rightarrow> string list" where
  \<comment> \<open>\<^verbatim>\<open>s.split(sep)\<close> for a one-character separator: empty pieces are kept\<close>
  "str_split_on sep s = split_sep sep [] s"

fun str_join :: "string \<Rightarrow> string list \<Rightarrow> string" where
  "str_join sep [] = []"
| "str_join sep [x] = x"
| "str_join sep (x # y # ys) = x @ sep @ str_join sep (y # ys)"

fun str_replace1 :: "string \<Rightarrow> string \<Rightarrow> string \<Rightarrow> string" where
  \<comment> \<open>\<^verbatim>\<open>s.replace(old, new, 1)\<close>: the leftmost occurrence of \<open>old\<close>, if there is one\<close>
  "str_replace1 old new [] = (if old = [] then new else [])"
| "str_replace1 old new (c # cs) =
     (if prefix old (c # cs) then new @ drop (length old) (c # cs)
      else c # str_replace1 old new cs)"

definition re_sub_nonword :: "string \<Rightarrow> string" where
  \<comment> \<open>\<^verbatim>\<open>re.sub(r'[^\w]', '', s)\<close>\<close>
  "re_sub_nonword s = filter is_word_char s"

definition blank :: string where
  "blank = ''________''"

subsection \<open>Exceptions and the linguistic resources\<close>

datatype error = LookupError | IndexError | ValueError

text \<open>
  The NLTK tokenizers and the stopword corpus are not part of the repository; each
  either returns a value or raises (\<open>Inl\<close>) when its resource is missing.  The
  generator is parameterised by them.
\<close>

record nltk =
  sent_tokenize :: "string \<Rightarrow> error + string list"
  word_tokenize :: "string \<Rightarrow> error + string list"
  stopwords_words :: "error + string list"

definition unavailable :: nltk where
  \<comment> \<open>no resource is installed: every primary call raises\<close>
  "unavailable =
     \<lparr>sent_tokenize = (\<lambda>_. Inl LookupError),
      word_tokenize = (\<lambda>_. Inl LookupError),
      stopwords_words = Inl LookupError\<rparr>"

definition safe_sent_tokenize :: "nltk \<Rightarrow> string \<Rightarrow> error + string list" where
  "safe_sent_tokenize env text =
     (case sent_tokenize env text of
        Inr ss \<Rightarrow> Inr ss
      | Inl _ \<Rightarrow>
          Inr (map (\<lambda>s. str_strip s @ ''.'')
                 (filter (\<lambda>s. str_strip s \<noteq> []) (str_split_on CHR ''.'' text))))"

definition safe_word_tokenize :: "nltk \<Rightarrow> string \<Rightarrow> error + string list" where
  "safe_word_tokenize env text =
     (case word_tokenize env (str_lower text) of
        Inr ws \<Rightarrow> Inr ws
      | Inl _ \<Rightarrow> Inr (str_split (str_lower text)))"

definition get_stopwords :: "nltk \<Rightarrow> error + string list" where
  \<comment> \<open>the set is only tested for membership; a list represents it\<close>
  "get_stopwords env =
     (case stopwords_words env of
        Inr ws \<Rightarrow> Inr ws
      | Inl _ \<Rightarrow>
          Inr [''a'', ''an'', ''the'', ''and'', ''or'', ''but'', ''if'', ''because'', ''as'',
               ''what'', ''while'', ''of'', ''to'', ''in'', ''for'', ''on'', ''by'', ''with'',
               ''about'', ''is'', ''are''])"

subsection \<open>Keyword extraction\<close>

fun freq_add :: "'a \<Rightarrow> ('a \<times> nat) list \<Rightarrow> ('a \<times> nat) list" where
  "freq_add w [] = [(w, 1)]"
| "freq_add w ((v, c) # d) = (if v = w then (v, Suc c) # d else (v, c) # freq_add w d)"

definition FreqDist :: "'a list \<Rightarrow> ('a \<times> nat) list" where
  \<comment> \<open>a counter is a dictionary: its keys stand in the order of their first insertion\<close>
  "FreqDist ws = foldl (\<lambda>d w. freq_add w d) [] ws"

definition most_common :: "nat \<Rightarrow> ('a \<times> nat) list \<Rightarrow> ('a \<times> nat) list" where
  \<comment> \<open>the \<open>n\<close> largest counts, by a stable descending sort of the items\<close>
  "most_common n d = take n (sort_key (\<lambda>p. - int (snd p)) d)"

definition content_word :: "string list \<Rightarrow> string \<Rightarrow> bool" where
  "content_word stop_words word \<longleftrightarrow>
     str_isalnum word \<and> word \<notin> set stop_words \<and> length word > 3"

definition extract_keywords :: "nltk \<Rightarrow> string \<Rightarrow> nat \<Rightarrow> error + string list" where
  "extract_keywords env text num_keywords =
     (case safe_word_tokenize env text of
        Inl e \<Rightarrow> Inl e
      | Inr words \<Rightarrow>
          (case get_stopwords env of
             Inl e \<Rightarrow> Inl e
           | Inr stop_words \<Rightarrow>
               Inr (map fst (most_common num_keywords
                       (FreqDist (filter (content_word stop_words) words))))))"

subsection \<open>Sentence selection\<close>

definition sentence_score :: "string list \<Rightarrow> string list \<Rightarrow> nat" where
  "sentence_score keywords tokens = length (filter (\<lambda>word. word \<in> set keywords) tokens)"

fun score_sentences ::
  "nltk \<Rightarrow> string list \<Rightarrow> string list \<Rightarrow> error + (string \<times> nat) list" where
  "score_sentences env keywords [] = Inr []"
| "score_sentences env keywords (sentence # rest) =
     (if length (str_split sentence) \<ge> 8 then
        (case safe_word_tokenize env sentence of
           Inl e \<Rightarrow> Inl e
         | Inr tokens \<Rightarrow>
             (case score_sentences env keywords rest of
                Inl e \<Rightarrow> Inl e
              | Inr scored \<Rightarrow> Inr ((sentence, sentence_score keywords tokens) # scored)))
      else score_sentences env keywords rest)"

definition extract_key_sentences ::
  "nltk \<Rightarrow> string \<Rightarrow> nat \<Rightarrow> error + (string list \<times> string list)" where
  "extract_key_sentences env text num_sentences =
     (case safe_sent_tokenize env text of
        Inl e \<Rightarrow> Inl e
      | Inr sentences \<Rightarrow>
          (case extract_keywords env text 20 of
             Inl e \<Rightarrow> Inl e
           | Inr keywords \<Rightarrow>
               (case score_sentences env keywords sentences of
                  Inl e \<Rightarrow> Inl e
                | Inr sentence_scores \<Rightarrow>
                    Inr (map fst (take num_sentences
                           (sort_key (\<lambda>x. - int (snd x)) sentence_scores)),
                         keywords))))"

subsection \<open>The random source\<close>

text \<open>
  Python's generator is not part of the repository.  Its state is modelled as the
  sequence of the raw draws still to come: \<open>randbelow n\<close> consumes one draw and
  reduces it below \<open>n\<close> (an exhausted sequence goes on with zeros).  Every run of the
  real generator is the run on some such sequence, so a property proved for all
  sequences holds for every seed.  The selection functions follow the standard
  library: \<^verbatim>\<open>shuffle\<close> is its exchange loop from the last index down, and \<^verbatim>\<open>sample\<close>
  is its selection from a shrinking pool (for large populations the library rejects
  repeated indices instead, with the same possible results: distinct positions of the
  population).
\<close>

type_synonym rng = "nat list"

fun randbelow :: "nat \<Rightarrow> rng \<Rightarrow> nat \<times> rng" where
  "randbelow n [] = (0, [])"
| "randbelow n (d # ds) = (d mod n, ds)"

definition choice :: "'a list \<Rightarrow> rng \<Rightarrow> error + ('a \<times> rng)" where
  \<comment> \<open>\<^verbatim>\<open>random.choice(seq)\<close>: raises \<^verbatim>\<open>IndexError\<close> on an empty sequence\<close>
  "choice seq r =
     (if seq = [] then Inl IndexError
      else (let (i, r') = randbelow (length seq) r in Inr (seq ! i, r')))"

fun sample_loop :: "nat \<Rightarrow> 'a list \<Rightarrow> rng \<Rightarrow> 'a list \<times> rng" where
  "sample_loop 0 pool r = ([], r)"
| "sample_loop (Suc k) pool r =
     (let (j, r') = randbelow (length pool) r;
          (rest, r'') = sample_loop k (butlast (pool[j := last pool])) r'
      in (pool ! j # rest, r''))"

definition sample :: "'a list \<Rightarrow> nat \<Rightarrow> rng \<Rightarrow> error + ('a list \<times> rng)" where
  \<comment> \<open>\<^verbatim>\<open>random.sample(population, k)\<close>: \<open>k\<close> draws without replacement from a pool;
      raises \<^verbatim>\<open>ValueError\<close> when the sample is larger than the population\<close>
  "sample population k r =
     (if k > length population then Inl ValueError else Inr (sample_loop k population r))"

fun shuffle_loop :: "nat \<Rightarrow> 'a list \<Rightarrow> rng \<Rightarrow> 'a list \<times> rng" where
  "shuffle_loop 0 x r = (x, r)"
| "shuffle_loop (Suc i) x r =
     (let (j, r') = randbelow (Suc (Suc i)) r
      in shuffle_loop i (x[Suc i := x ! j, j := x ! Suc i]) r')"

definition shuffle :: "'a list \<Rightarrow> rng \<Rightarrow> 'a list \<times> rng" where
  \<comment> \<open>\<^verbatim>\<open>random.shuffle(x)\<close>: for \<open>i\<close> from the last index down to 1, swap \<open>x[i]\<close>
      with \<open>x[j]\<close> for a random \<open>j \<le> i\<close>\<close>
  "shuffle x r = shuffle_loop (length x - 1) x r"

fun list_index :: "'a list \<Rightarrow> 'a \<Rightarrow> error + nat" where
  \<comment> \<open>\<^verbatim>\<open>xs.index(v)\<close>: raises \<^verbatim>\<open>ValueError\<close> when \<open>v\<close> is absent\<close>
  "list_index [] v = Inl ValueError"
| "list_index (x # xs) v =
     (if x = v then Inr 0
      else (case list_index xs v of Inl e \<Rightarrow> Inl e | Inr i \<Rightarrow> Inr (Suc i)))"

subsection \<open>Flashcards\<close>

datatype card =
  Mcq (question: string) (options: "string list") (correct_answer: string)
      (correct_index: nat) (explanation: string)
| True_false (question: string) (correct_bool: bool) (explanation: string)
| Fill_blank (question: string) (correct_answer: string) (explanation: string)

fun card_type :: "card \<Rightarrow> string" where
  "card_type (Mcq _ _ _ _ _) = ''mcq''"
| "card_type (True_false _ _ _) = ''true_false''"
| "card_type (Fill_blank _ _ _) = ''fill_blank''"

subsection \<open>The question generators\<close>

definition general_distractors :: "string list" where
  "general_distractors =
     [''concept'', ''element'', ''process'', ''method'', ''system'',
      ''principle'', ''approach'', ''structure'', ''model'', ''theory'']"

definition potential_distractors :: "string list \<Rightarrow> string \<Rightarrow> string list" where
  "potential_distractors keywords target_word =
     (let pd = filter (\<lambda>w. w \<noteq> target_word \<and> length w > 2) keywords
      in if length pd < 3 then pd @ general_distractors else pd)"

definition mcq_content_words :: "nltk \<Rightarrow> string \<Rightarrow> error + string list" where
  "mcq_content_words env sentence =
     (case safe_word_tokenize env sentence of
        Inl e \<Rightarrow> Inl e
      | Inr words \<Rightarrow>
          (case get_stopwords env of
             Inl e \<Rightarrow> Inl e
           | Inr stop_words \<Rightarrow> Inr (filter (content_word stop_words) words)))"

definition create_mcq_from_sentence ::
  "nltk \<Rightarrow> string \<Rightarrow> string list \<Rightarrow> rng \<Rightarrow> error + (card option \<times> rng)" where
  "create_mcq_from_sentence env sentence keywords r =
     (case mcq_content_words env sentence of
        Inl e \<Rightarrow> Inl e
      | Inr content_words \<Rightarrow>
          if content_words = [] then Inr (None, r)
          else
            (case choice content_words r of
               Inl e \<Rightarrow> Inl e
             | Inr (target_word, r1) \<Rightarrow>
                 let question_text = str_replace1 target_word blank sentence;
                     pd = potential_distractors keywords target_word
                 in (case sample pd (min 3 (length pd)) r1 of
                       Inl e \<Rightarrow> Inl e
                     | Inr (distractors, r2) \<Rightarrow>
                         let (opts, r3) = shuffle (distractors @ [target_word]) r2
                         in (case list_index opts target_word of
                               Inl e \<Rightarrow> Inl e
                             | Inr idx \<Rightarrow>
                                 Inr (Some (Mcq (''Complete the sentence: '' @ question_text)
                                              opts target_word idx
                                              (''The correct answer is '' @ [CHR 0x27] @ target_word
                                                 @ [CHR 0x27] @ '' based on the context.'')),
                                      r3)))))"

definition true_q :: "string \<Rightarrow> card" where
  "true_q sentence =
     True_false sentence True ''This statement is directly from the source text.''"

definition false_q :: "string \<Rightarrow> card" where
  "false_q modified_sentence =
     True_false modified_sentence False
       ''This statement has been modified from the original text.''"

definition tf_content_words :: "nltk \<Rightarrow> string \<Rightarrow> error + string list" where
  "tf_content_words env sentence =
     (case get_stopwords env of
        Inl e \<Rightarrow> Inl e
      | Inr stop_words \<Rightarrow>
          Inr (filter (\<lambda>w. str_lower w \<notin> set stop_words \<and> length w > 3)
                 (str_split sentence)))"

fun tf_loop ::
  "string \<Rightarrow> string list \<Rightarrow> string list \<Rightarrow> rng \<Rightarrow> error + (card list \<times> rng)" where
  "tf_loop sentence keywords [] r = Inr ([true_q sentence], r)"
| "tf_loop sentence keywords (word # rest) r =
     (case choice keywords r of
        Inl e \<Rightarrow> Inl e
      | Inr (replacement, r') \<Rightarrow>
          if str_lower replacement \<noteq> str_lower word
          then Inr ([true_q sentence, false_q (str_replace1 word replacement sentence)], r')
          else tf_loop sentence keywords rest r')"

definition create_true_false_from_sentence ::
  "nltk \<Rightarrow> string \<Rightarrow> string list \<Rightarrow> rng \<Rightarrow> error + (card list option \<times> rng)" where
  "create_true_false_from_sentence env sentence keywords r =
     (if length (str_split sentence) < 8 then Inr (None, r)
      else
        (case tf_content_words env sentence of
           Inl e \<Rightarrow> Inl e
         | Inr content_words \<Rightarrow>
             if content_words \<noteq> [] \<and> keywords \<noteq> [] then
               (case tf_loop sentence keywords content_words r of
                  Inl e \<Rightarrow> Inl e
                | Inr (cards, r') \<Rightarrow> Inr (Some cards, r'))
             else Inr (Some [true_q sentence], r)))"

definition clean_word :: "string \<Rightarrow> string" where
  "clean_word word = re_sub_nonword (str_lower word)"

definition fill_card :: "string list \<Rightarrow> nat \<Rightarrow> string \<Rightarrow> card" where
  "fill_card words i word =
     Fill_blank (''Fill in the blank: '' @ str_join '' '' (words[i := blank]))
       word
       (''The correct word is '' @ [CHR 0x27] @ word @ [CHR 0x27]
          @ '' based on the context.'')"

fun fill_loop :: "string list \<Rightarrow> string list \<Rightarrow> nat \<Rightarrow> string list \<Rightarrow> card option" where
  \<comment> \<open>the loop over \<^verbatim>\<open>enumerate(words)\<close>: \<open>i\<close> is the index of the next word\<close>
  "fill_loop keywords words i [] = None"
| "fill_loop keywords words i (word # rest) =
     (if clean_word word \<in> set keywords \<and> length (clean_word word) > 3
      then Some (fill_card words i word)
      else fill_loop keywords words (Suc i) rest)"

definition create_fill_blank_from_sentence :: "string \<Rightarrow> string list \<Rightarrow> card option" where
  "create_fill_blank_from_sentence sentence keywords =
     (if length (str_split sentence) < 10 then None
      else (let words = str_split sentence in fill_loop keywords words 0 words))"

subsection \<open>Deck assembly\<close>

fun mcq_cards_loop ::
  "nltk \<Rightarrow> string list \<Rightarrow> nat \<Rightarrow> string list \<Rightarrow> card list \<Rightarrow> rng
     \<Rightarrow> error + (card list \<times> rng)" where
  "mcq_cards_loop env keywords num_mcq [] all_cards r = Inr (all_cards, r)"
| "mcq_cards_loop env keywords num_mcq (sentence # rest) all_cards r =
     (case create_mcq_from_sentence env sentence keywords r of
        Inl e \<Rightarrow> Inl e
      | Inr (None, r') \<Rightarrow> mcq_cards_loop env keywords num_mcq rest all_cards r'
      | Inr (Some mcq, r') \<Rightarrow>
          if length (filter (\<lambda>c. card_type c = ''mcq'') (all_cards @ [mcq])) \<ge> num_mcq
          then Inr (all_cards @ [mcq], r')
          else mcq_cards_loop env keywords num_mcq rest (all_cards @ [mcq]) r')"

fun tf_cards_loop ::
  "nltk \<Rightarrow> string list \<Rightarrow> nat \<Rightarrow> string list \<Rightarrow> card list \<Rightarrow> nat \<Rightarrow> rng
     \<Rightarrow> error + (card list \<times> rng)" where
  "tf_cards_loop env keywords num_tf [] all_cards tf_count r = Inr (all_cards, r)"
| "tf_cards_loop env keywords num_tf (sentence # rest) all_cards tf_count r =
     (if tf_count \<ge> num_tf then Inr (all_cards, r)
      else
        (case create_true_false_from_sentence env sentence keywords r of
           Inl e \<Rightarrow> Inl e
         | Inr (None, r') \<Rightarrow> tf_cards_loop env keywords num_tf rest all_cards tf_count r'
         | Inr (Some tf_questions, r') \<Rightarrow>
             if tf_questions \<noteq> [] then
               tf_cards_loop env keywords num_tf rest
                 (all_cards @ take (num_tf - tf_count) tf_questions)
                 (tf_count + length (take (num_tf - tf_count) tf_questions)) r'
             else tf_cards_loop env keywords num_tf rest all_cards tf_count r'))"

fun fill_cards_loop :: "string list \<Rightarrow> nat \<Rightarrow> string list \<Rightarrow> card list \<Rightarrow> card list" where
  "fill_cards_loop keywords num_fill [] all_cards = all_cards"
| "fill_cards_loop keywords num_fill (sentence # rest) all_cards =
     (if length (filter (\<lambda>c. card_type c = ''fill_blank'') all_cards) \<ge> num_fill
      then all_cards
      else
        (case create_fill_blank_from_sentence sentence keywords of
           None \<Rightarrow> fill_cards_loop keywords num_fill rest all_cards
         | Some fill_q \<Rightarrow> fill_cards_loop keywords num_fill rest (all_cards @ [fill_q])))"

definition assemble_deck ::
  "nltk \<Rightarrow> string list \<Rightarrow> string list \<Rightarrow> nat \<Rightarrow> nat \<Rightarrow> nat \<Rightarrow> rng
     \<Rightarrow> error + (card list \<times> rng)" where
  \<comment> \<open>the body of \<^verbatim>\<open>generate_flashcards\<close> from \<^verbatim>\<open>all_cards = []\<close> on\<close>
  "assemble_deck env keywords key_sentences num_mcq num_tf num_fill r =
     (case mcq_cards_loop env keywords num_mcq (take (num_mcq * 2) key_sentences) [] r of
        Inl e \<Rightarrow> Inl e
      | Inr (cards1, r1) \<Rightarrow>
          (case tf_cards_loop env keywords num_tf key_sentences cards1 0 r1 of
             Inl e \<Rightarrow> Inl e
           | Inr (cards2, r2) \<Rightarrow>
               let (deck, r3) = shuffle (fill_cards_loop keywords num_fill key_sentences cards2) r2
               in Inr (take (num_mcq + num_tf + num_fill) deck, r3)))"

definition generate_flashcards ::
  "nltk \<Rightarrow> string \<Rightarrow> nat \<Rightarrow> nat \<Rightarrow> nat \<Rightarrow> rng \<Rightarrow> error + (card list \<times> rng)" where
  "generate_flashcards env text num_mcq num_tf num_fill r =
     (if text = [] \<or> length (str_strip text) < 100 then Inr ([], r)
      else
        (case extract_key_sentences env text 25 of
           Inl e \<Rightarrow> Inl e
         | Inr (key_sentences, keywords) \<Rightarrow>
             if key_sentences = [] then Inr ([], r)
             else assemble_deck env keywords key_sentences num_mcq num_tf num_fill r))"

subsection \<open>Deck assembly as the specification words it\<close>

text \<open>
  The specification describes one loop per question type: walk the ranked sentences,
  attempt the generator, stop when the quota is met or the pool is exhausted.  The
  loop below is that description (a generator yields the cards of one sentence; no
  more than the quota still open is taken).  \<open>deck_assembly_spec\<close> runs it for the
  three types, the multiple-choice loop over \<open>mcq_pool\<close>.
\<close>

fun attempt_until ::
  "(string \<Rightarrow> rng \<Rightarrow> error + (card list \<times> rng)) \<Rightarrow> nat \<Rightarrow> string list \<Rightarrow> rng
     \<Rightarrow> error + (card list \<times> rng)" where
  "attempt_until gen quota [] r = Inr ([], r)"
| "attempt_until gen quota (sentence # pool) r =
     (if quota = 0 then Inr ([], r)
      else
        (case gen sentence r of
           Inl e \<Rightarrow> Inl e
         | Inr (cards, r') \<Rightarrow>
             (case attempt_until gen (quota - length (take quota cards)) pool r' of
                Inl e \<Rightarrow> Inl e
              | Inr (later, r'') \<Rightarrow> Inr (take quota cards @ later, r''))))"

definition mcq_gen :: "nltk \<Rightarrow> string list \<Rightarrow> string \<Rightarrow> rng \<Rightarrow> error + (card list \<times> rng)" where
  "mcq_gen env keywords sentence r =
     (case create_mcq_from_sentence env sentence keywords r of
        Inl e \<Rightarrow> Inl e
      | Inr (None, r') \<Rightarrow> Inr ([], r')
      | Inr (Some c, r') \<Rightarrow> Inr ([c], r'))"

definition tf_gen :: "nltk \<Rightarrow> string list \<Rightarrow> string \<Rightarrow> rng \<Rightarrow> error + (card list \<times> rng)" where
  "tf_gen env keywords sentence r =
     (case create_true_false_from_sentence env sentence keywords r of
        Inl e \<Rightarrow> Inl e
      | Inr (None, r') \<Rightarrow> Inr ([], r')
      | Inr (Some cs, r') \<Rightarrow> Inr (cs, r'))"

definition fill_gen :: "string list \<Rightarrow> string \<Rightarrow> rng \<Rightarrow> error + (card list \<times> rng)" where
  "fill_gen keywords sentence r =
     (case create_fill_blank_from_sentence sentence keywords of
        None \<Rightarrow> Inr ([], r)
      | Some c \<Rightarrow> Inr ([c], r))"

definition deck_assembly_spec ::
  "nltk \<Rightarrow> string list \<Rightarrow> string list \<Rightarrow> string list \<Rightarrow> nat \<Rightarrow> nat \<Rightarrow> nat \<Rightarrow> rng
     \<Rightarrow> error + (card list \<times> rng)" where
  "deck_assembly_spec env keywords mcq_pool pool num_mcq num_tf num_fill r =
     (case attempt_until (mcq_gen env keywords) num_mcq mcq_pool r of
        Inl e \<Rightarrow> Inl e
      | Inr (mcqs, r1) \<Rightarrow>
          (case attempt_until (tf_gen env keywords) num_tf pool r1 of
             Inl e \<Rightarrow> Inl e
           | Inr (tfs, r2) \<Rightarrow>
               (case attempt_until (fill_gen keywords) num_fill pool r2 of
                  Inl e \<Rightarrow> Inl e
                | Inr (fills, r3) \<Rightarrow>
                    let (deck, r4) = shuffle (mcqs @ tfs @ fills) r3
                    in Inr (take (num_mcq + num_tf + num_fill) deck, r4))))"

subsection \<open>Auxiliary notions for the statements\<close>

definition with_cards ::
  "card list \<Rightarrow> error + (card list \<times> rng) \<Rightarrow> error + (card list \<times> rng)" where
  \<comment> \<open>the cards collected so far, put in front of a loop's result\<close>
  "with_cards acc res = (case res of Inl e \<Rightarrow> Inl e | Inr (cs, r) \<Rightarrow> Inr (acc @ cs, r))"

definition first_index :: "'a \<Rightarrow> 'a list \<Rightarrow> nat" where
  \<comment> \<open>the position of the first occurrence of \<open>w\<close> in \<open>ws\<close> (the length, if there is none)\<close>
  "first_index w ws = length (takeWhile (\<lambda>x. x \<noteq> w) ws)"

definition ranked_before :: "'a list \<Rightarrow> 'a \<Rightarrow> 'a \<Rightarrow> bool" where
  \<comment> \<open>\<open>a\<close> is more frequent in \<open>ws\<close> than \<open>b\<close>, or as frequent and first seen earlier\<close>
  "ranked_before ws a b \<longleftrightarrow>
     count_list ws b < count_list ws a \<or>
     (count_list ws a = count_list ws b \<and> first_index a ws < first_index b ws)"


subsection \<open>Example inputs\<close>

definition short_text :: string where
  "short_text = ''Cells divide. Cells grow.''"

definition choppy_text :: string where
  "choppy_text = ''Cells divide. Cells grow fast. Plants need light. Water is wet. Birds can fly. Fish swim deep. Cats sleep. Dogs bark.''"

definition cell_sentence :: string where
  "cell_sentence = ''The Mitochondria, is the powerhouse of every living cell today.''"


definition capped_text :: string where
  "capped_text = ''it is an ox or a cat so it is an ox or a cat so.it is an ox or a cat so.whale is in it we do see so as.''"

definition capped_pool :: "string list" where
  "capped_pool = [''it is an ox or a cat so it is an ox or a cat so.'',
                  ''it is an ox or a cat so.'', ''whale is in it we do see so as.'']"

definition concept_sentence :: string where
  "concept_sentence = ''the concept of a cell is central to biology.''"

definition whales_sentence :: string where
  "whales_sentence = ''Whales are the largest animals living in the sea today.''"

definition shark_text :: string where
  "shark_text = ''the shark and the whale swim but the whale and the shark dive''"


definition reef_text :: string where
  "reef_text = ''sharks hunt about the reef while the whale sings because what it hears is with the pod and about the reef.''"

definition reordered :: nltk where
  \<comment> \<open>no tokenizer is installed; the stop words are those of the fallback, in another order\<close>
  "reordered =
     \<lparr>sent_tokenize = (\<lambda>_. Inl LookupError),
      word_tokenize = (\<lambda>_. Inl LookupError),
      stopwords_words =
        Inr [''are'', ''is'', ''about'', ''with'', ''by'', ''on'', ''for'', ''in'', ''to'', ''of'',
             ''while'', ''what'', ''as'', ''because'', ''if'', ''but'', ''or'', ''and'', ''the'',
             ''an'', ''a'', ''the'']\<rparr>"


subsection \<open>Basic facts: the resources and the random functions\<close>

lemma safe_word_tokenize_returns: "\<exists>ws. safe_word_tokenize env text = Inr ws"
  by (simp add: safe_word_tokenize_def split: sum.splits)

lemma get_stopwords_returns: "\<exists>sw. get_stopwords env = Inr sw"
  by (simp add: get_stopwords_def split: sum.splits)

lemma randbelow_less: "0 < n \<Longrightarrow> randbelow n r = (i, r') \<Longrightarrow> i < n"
  by (cases r) auto

lemma choice_returns:
  "seq \<noteq> [] \<Longrightarrow> \<exists>x r'. choice seq r = Inr (x, r') \<and> x \<in> set seq"
proof -
  assume ne: "seq \<noteq> []"
  obtain i r' where rb: "randbelow (length seq) r = (i, r')"
    by (cases "randbelow (length seq) r")
  with ne have "i < length seq" using randbelow_less [of "length seq" r i r'] by simp
  with ne rb show ?thesis by (simp add: choice_def)
qed

lemma sample_loop_length:
  "k \<le> length pool \<Longrightarrow> sample_loop k pool r = (ys, r') \<Longrightarrow> length ys = k"
proof (induction k arbitrary: pool r ys r')
  case 0
  then show ?case by simp
next
  case (Suc k)
  obtain j r1 where rb: "randbelow (length pool) r = (j, r1)"
    by (cases "randbelow (length pool) r")
  obtain rest r2 where sl: "sample_loop k (butlast (pool[j := last pool])) r1 = (rest, r2)"
    by (cases "sample_loop k (butlast (pool[j := last pool])) r1")
  have "k \<le> length (butlast (pool[j := last pool]))" using Suc.prems(1) by simp
  from Suc.IH [OF this sl] have "length rest = k" .
  with Suc.prems(2) rb sl show ?case by auto
qed

lemma sample_loop_subset:
  "k \<le> length pool \<Longrightarrow> sample_loop k pool r = (ys, r') \<Longrightarrow> set ys \<subseteq> set pool"
proof (induction k arbitrary: pool r ys r')
  case 0
  then show ?case by simp
next
  case (Suc k)
  obtain j r1 where rb: "randbelow (length pool) r = (j, r1)"
    by (cases "randbelow (length pool) r")
  obtain rest r2 where sl: "sample_loop k (butlast (pool[j := last pool])) r1 = (rest, r2)"
    by (cases "sample_loop k (butlast (pool[j := last pool])) r1")
  have pne: "pool \<noteq> []" using Suc.prems(1) by auto
  have jl: "j < length pool" using randbelow_less [OF _ rb] pne by simp
  have "k \<le> length (butlast (pool[j := last pool]))" using Suc.prems(1) by simp
  from Suc.IH [OF this sl] have "set rest \<subseteq> set (butlast (pool[j := last pool]))" .
  also have "\<dots> \<subseteq> set (pool[j := last pool])"
    by (meson in_set_butlastD subsetI)
  also have "\<dots> \<subseteq> insert (last pool) (set pool)"
    by (rule set_update_subset_insert)
  also have "\<dots> = set pool" using pne by (simp add: insert_absorb)
  finally have "set rest \<subseteq> set pool" .
  with Suc.prems(2) rb sl jl show ?case by auto
qed

lemma shuffle_loop_mset:
  "i < length x \<Longrightarrow> shuffle_loop i x r = (y, r') \<Longrightarrow> mset y = mset x"
proof (induction i arbitrary: x r y r')
  case 0
  then show ?case by simp
next
  case (Suc i)
  obtain j r1 where rb: "randbelow (Suc (Suc i)) r = (j, r1)"
    by (cases "randbelow (Suc (Suc i)) r")
  have jl: "j < Suc (Suc i)" using randbelow_less [OF _ rb] by simp
  let ?x = "x[Suc i := x ! j, j := x ! Suc i]"
  have sl: "shuffle_loop i ?x r1 = (y, r')" using Suc.prems(2) rb by simp
  have "i < length ?x" using Suc.prems(1) by simp
  from Suc.IH [OF this sl] have "mset y = mset ?x" .
  also have "\<dots> = mset x" using jl Suc.prems(1) by (simp add: mset_swap)
  finally show ?case .
qed

lemma shuffle_mset: "shuffle x r = (y, r') \<Longrightarrow> mset y = mset x"
proof (cases "x = []")
  case True
  assume "shuffle x r = (y, r')"
  with True show ?thesis by (simp add: shuffle_def)
next
  case False
  assume "shuffle x r = (y, r')"
  then have "shuffle_loop (length x - 1) x r = (y, r')" by (simp add: shuffle_def)
  moreover have "length x - 1 < length x" using False by simp
  ultimately show ?thesis by (rule shuffle_loop_mset [rotated])
qed

lemma shuffle_length: "shuffle x r = (y, r') \<Longrightarrow> length y = length x"
  by (metis shuffle_mset size_mset)

lemma shuffle_set: "shuffle x r = (y, r') \<Longrightarrow> set y = set x"
  by (metis shuffle_mset set_mset_mset)

lemma list_index_returns:
  "v \<in> set xs \<Longrightarrow> \<exists>i. list_index xs v = Inr i \<and> i < length xs \<and> xs ! i = v"
  by (induction xs) auto

lemma potential_distractors_length: "3 \<le> length (potential_distractors keywords target_word)"
  by (simp add: potential_distractors_def general_distractors_def Let_def)

lemma mcq_content_words_returns: "\<exists>cw. mcq_content_words env sentence = Inr cw"
  using safe_word_tokenize_returns [of env sentence] get_stopwords_returns [of env]
  by (auto simp: mcq_content_words_def)

lemma create_mcq_Some:
  assumes cw: "mcq_content_words env sentence = Inr content_words"
    and ne: "content_words \<noteq> []"
  shows "\<exists>target_word opts idx expl r'.
           create_mcq_from_sentence env sentence keywords r =
             Inr (Some (Mcq (''Complete the sentence: '' @ str_replace1 target_word blank sentence)
                          opts target_word idx expl), r')
           \<and> target_word \<in> set content_words \<and> length opts = 4
           \<and> idx < length opts \<and> opts ! idx = target_word"
proof -
  obtain target_word r1 where ch: "choice content_words r = Inr (target_word, r1)"
    and tin: "target_word \<in> set content_words"
    using choice_returns [OF ne] by blast
  let ?pd = "potential_distractors keywords target_word"
  have pd3: "min 3 (length ?pd) = 3" using potential_distractors_length [of "keywords" target_word] by simp
  obtain distractors r2 where sl: "sample_loop 3 ?pd r1 = (distractors, r2)"
    by (cases "sample_loop 3 ?pd r1")
  have sm: "sample ?pd 3 r1 = Inr (distractors, r2)"
    using sl potential_distractors_length [of "keywords" target_word] by (simp add: sample_def)
  have dl: "length distractors = 3"
    using sample_loop_length [OF _ sl] potential_distractors_length [of "keywords" target_word] by simp
  obtain opts r3 where sh: "shuffle (distractors @ [target_word]) r2 = (opts, r3)"
    by (cases "shuffle (distractors @ [target_word]) r2")
  have ol: "length opts = 4" using shuffle_length [OF sh] dl by simp
  have "target_word \<in> set opts" using shuffle_set [OF sh] by simp
  from list_index_returns [OF this]
  obtain idx where ix: "list_index opts target_word = Inr idx" "idx < length opts" "opts ! idx = target_word"
    by (elim exE conjE)
  have "create_mcq_from_sentence env sentence keywords r =
          Inr (Some (Mcq (''Complete the sentence: '' @ str_replace1 target_word blank sentence)
                 opts target_word idx
                 (''The correct answer is '' @ [CHR 0x27] @ target_word
                    @ [CHR 0x27] @ '' based on the context.'')), r3)"
    unfolding create_mcq_from_sentence_def
    by (simp only: cw ne ch sm sh ix pd3 Let_def sum.case prod.case if_False)
  with tin ol ix(2,3) show ?thesis by blast
qed

lemma create_mcq_returns:
  "\<exists>res r'. create_mcq_from_sentence env sentence keywords r = Inr (res, r')"
proof -
  obtain cw where cw: "mcq_content_words env sentence = Inr cw"
    using mcq_content_words_returns by blast
  show ?thesis
  proof (cases "cw = []")
    case True
    with cw show ?thesis by (simp add: create_mcq_from_sentence_def)
  next
    case False
    from create_mcq_Some [OF cw False, of "keywords" r] show ?thesis by blast
  qed
qed

lemma safe_sent_tokenize_returns: "\<exists>ss. safe_sent_tokenize env text = Inr ss"
  by (simp add: safe_sent_tokenize_def split: sum.splits)

lemma extract_keywords_returns: "\<exists>ks. extract_keywords env text k = Inr ks"
  using safe_word_tokenize_returns [of env "text"] get_stopwords_returns [of env]
  by (auto simp: extract_keywords_def)

lemma score_sentences_returns: "\<exists>sc. score_sentences env kws sentences = Inr sc"
proof (induction sentences)
  case Nil
  then show ?case by simp
next
  case (Cons s sentences)
  then obtain sc where sc: "score_sentences env kws sentences = Inr sc" by (elim exE)
  obtain toks where tk: "safe_word_tokenize env s = Inr toks"
    using safe_word_tokenize_returns [of env s] by (elim exE)
  show ?case by (simp add: sc tk)
qed

lemma extract_key_sentences_returns:
  "\<exists>ss kws. extract_key_sentences env text n = Inr (ss, kws)"
proof -
  obtain sents where a: "safe_sent_tokenize env text = Inr sents"
    using safe_sent_tokenize_returns [of env "text"] by (elim exE)
  obtain kws where b: "extract_keywords env text 20 = Inr kws"
    using extract_keywords_returns [of env "text" 20] by (elim exE)
  obtain sc where c: "score_sentences env kws sents = Inr sc"
    using score_sentences_returns [of env kws sents] by (elim exE)
  show ?thesis by (simp add: extract_key_sentences_def a b c)
qed

lemma tf_loop_returns:
  "keywords \<noteq> [] \<Longrightarrow>
   \<exists>cards r'. tf_loop sentence keywords content_words r = Inr (cards, r') \<and>
     (cards = [true_q sentence] \<or>
      (\<exists>word replacement. word \<in> set content_words \<and> replacement \<in> set keywords \<and>
         str_lower replacement \<noteq> str_lower word \<and>
         cards = [true_q sentence, false_q (str_replace1 word replacement sentence)]))"
proof (induction content_words arbitrary: r)
  case Nil
  then show ?case by simp
next
  case (Cons word rest)
  obtain replacement r1 where ch: "choice keywords r = Inr (replacement, r1)"
    and rin: "replacement \<in> set keywords"
    using choice_returns [OF Cons.prems, of r] by (elim exE conjE)
  show ?case
  proof (cases "str_lower replacement \<noteq> str_lower word")
    case True
    with ch rin show ?thesis by auto
  next
    case False
    from Cons.IH [OF Cons.prems, of r1]
    obtain cards r' where t: "tf_loop sentence keywords rest r1 = Inr (cards, r')"
      and d: "cards = [true_q sentence] \<or>
      (\<exists>word replacement. word \<in> set rest \<and> replacement \<in> set keywords \<and>
         str_lower replacement \<noteq> str_lower word \<and>
         cards = [true_q sentence, false_q (str_replace1 word replacement sentence)])"
      by (elim exE conjE)
    have "tf_loop sentence keywords (word # rest) r = Inr (cards, r')"
      using ch False t by simp
    moreover from d have "cards = [true_q sentence] \<or>
      (\<exists>w replacement. w \<in> set (word # rest) \<and> replacement \<in> set keywords \<and>
         str_lower replacement \<noteq> str_lower w \<and>
         cards = [true_q sentence, false_q (str_replace1 w replacement sentence)])"
      by auto
    ultimately show ?thesis by (intro exI conjI)
  qed
qed

lemma tf_content_words_returns: "\<exists>cw. tf_content_words env sentence = Inr cw"
  using get_stopwords_returns [of env] by (auto simp: tf_content_words_def)

lemma create_true_false_returns:
  "\<exists>res r'. create_true_false_from_sentence env sentence keywords r = Inr (res, r')"
proof -
  obtain cw where cw: "tf_content_words env sentence = Inr cw"
    using tf_content_words_returns [of env sentence] by (elim exE)
  show ?thesis
  proof (cases "cw \<noteq> [] \<and> keywords \<noteq> []")
    case True
    then have "keywords \<noteq> []" by simp
    from tf_loop_returns [OF this, of sentence cw r]
    obtain cards r' where "tf_loop sentence keywords cw r = Inr (cards, r')" by (elim exE conjE)
    with cw True show ?thesis by (simp add: create_true_false_from_sentence_def)
  next
    case False
    with cw show ?thesis by (auto simp: create_true_false_from_sentence_def)
  qed
qed

lemma FreqDist_Nil: "FreqDist [] = []"
  by (simp add: FreqDist_def)

lemma most_common_Nil: "most_common n [] = []"
  by (simp add: most_common_def)

lemma str_split_Nil: "str_split [] = []"
  by (simp add: str_split_def)

lemma length_str_strip: "length (str_strip s) \<le> length s"
proof -
  have "length (str_strip s) \<le> length (dropWhile is_space s)"
    unfolding str_strip_def
    by (metis length_dropWhile_le length_rev)
  also have "\<dots> \<le> length s" by (rule length_dropWhile_le)
  finally show ?thesis .
qed

lemma score_sentences_none:
  "\<forall>s\<in>set sentences. length (str_split s) < 8 \<Longrightarrow> score_sentences env kws sentences = Inr []"
  by (induction sentences) auto

text \<open>
  Claim C3.  Keyword extraction never raises: whatever the tokenizer and the stopword
  corpus do (return or raise), \<open>extract_keywords\<close> returns a keyword list.  On the empty
  string the list is empty, provided the primary tokenizer, where it is available,
  finds no token in the empty string (the fallback finds none).
\<close>

theorem extract_keywords_never_raises:
  "(\<exists>ks. extract_keywords env text k = Inr ks) \<and>
   ((\<forall>ws. word_tokenize env [] = Inr ws \<longrightarrow> ws = []) \<longrightarrow> extract_keywords env [] k = Inr [])"
proof
  show "\<exists>ks. extract_keywords env text k = Inr ks"
    by (rule extract_keywords_returns)
next
  show "(\<forall>ws. word_tokenize env [] = Inr ws \<longrightarrow> ws = []) \<longrightarrow> extract_keywords env [] k = Inr []"
  proof
    assume h: "\<forall>ws. word_tokenize env [] = Inr ws \<longrightarrow> ws = []"
    have "safe_word_tokenize env [] = Inr []"
      using h by (auto simp: safe_word_tokenize_def str_lower_def str_split_Nil split: sum.splits)
    moreover obtain sw where "get_stopwords env = Inr sw"
      using get_stopwords_returns [of env] by (elim exE)
    ultimately show "extract_keywords env [] k = Inr []"
      by (simp add: extract_keywords_def FreqDist_Nil most_common_Nil)
  qed
qed

theorem extract_keywords_never_raises_witness:
  "extract_keywords unavailable ''the whale swims and the whale dives'' 2 = Inr [''whale'', ''swims'']
   \<and> word_tokenize unavailable [] = Inl LookupError
   \<and> extract_keywords unavailable [] 20 = Inr []"
proof -
  have a: "word_tokenize unavailable [] = Inl LookupError"
    by (simp add: unavailable_def)
  have b: "extract_keywords unavailable [] 20 = Inr []"
    using extract_keywords_never_raises [of unavailable "[]" 20] a by simp
  have c: "extract_keywords unavailable ''the whale swims and the whale dives'' 2
             = Inr [''whale'', ''swims'']"
    by code_simp
  show ?thesis using a b c by simp
qed

text \<open>
  Claim C7.  \<open>generate_flashcards\<close> returns the empty deck, and does not raise, when the
  text is empty or its stripped length is below 100, hence for every text shorter than
  100 characters, and when no sentence of the text has 8 words or more; the quotas do
  not matter, and the random source is left untouched.
\<close>

theorem generate_flashcards_empty:
  "(text = [] \<or> length (str_strip text) < 100 \<longrightarrow>
      generate_flashcards env text num_mcq num_tf num_fill r = Inr ([], r)) \<and>
   (length text < 100 \<longrightarrow>
      generate_flashcards env text num_mcq num_tf num_fill r = Inr ([], r)) \<and>
   (safe_sent_tokenize env text = Inr sentences \<and>
    (\<forall>s\<in>set sentences. length (str_split s) < 8) \<longrightarrow>
      generate_flashcards env text num_mcq num_tf num_fill r = Inr ([], r))"
proof (intro conjI impI)
  assume "text = [] \<or> length (str_strip text) < 100"
  then show "generate_flashcards env text num_mcq num_tf num_fill r = Inr ([], r)"
    by (simp add: generate_flashcards_def)
next
  assume "length text < 100"
  with length_str_strip [of "text"] have "length (str_strip text) < 100" by simp
  then show "generate_flashcards env text num_mcq num_tf num_fill r = Inr ([], r)"
    by (simp add: generate_flashcards_def)
next
  assume h: "safe_sent_tokenize env text = Inr sentences \<and>
    (\<forall>s\<in>set sentences. length (str_split s) < 8)"
  obtain kws where k: "extract_keywords env text 20 = Inr kws"
    using extract_keywords_returns [of env "text" 20] by (elim exE)
  have "score_sentences env kws sentences = Inr []"
    using h by (simp add: score_sentences_none)
  with h k have "extract_key_sentences env text 25 = Inr ([], kws)"
    by (simp add: extract_key_sentences_def)
  then show "generate_flashcards env text num_mcq num_tf num_fill r = Inr ([], r)"
    by (simp add: generate_flashcards_def)
qed

theorem generate_flashcards_empty_witness:
  "length short_text < 100 \<and>
   generate_flashcards unavailable short_text 2 2 1 [3, 1, 4] = Inr ([], [3, 1, 4]) \<and>
   100 \<le> length (str_strip choppy_text) \<and>
   safe_sent_tokenize unavailable choppy_text =
     Inr [''Cells divide.'', ''Cells grow fast.'', ''Plants need light.'', ''Water is wet.'',
          ''Birds can fly.'', ''Fish swim deep.'', ''Cats sleep.'', ''Dogs bark.''] \<and>
   generate_flashcards unavailable choppy_text 2 2 1 [3, 1, 4] = Inr ([], [3, 1, 4])"
proof -
  let ?ss = "[''Cells divide.'', ''Cells grow fast.'', ''Plants need light.'', ''Water is wet.'',
          ''Birds can fly.'', ''Fish swim deep.'', ''Cats sleep.'', ''Dogs bark.'']"
  have a: "length short_text < 100" by (simp add: short_text_def)
  have b: "generate_flashcards unavailable short_text 2 2 1 [3, 1, 4] = Inr ([], [3, 1, 4])"
    using generate_flashcards_empty [of short_text unavailable 2 2 1 "[3, 1, 4]"] a by simp
  have c: "100 \<le> length (str_strip choppy_text)" by code_simp
  have d: "safe_sent_tokenize unavailable choppy_text = Inr ?ss" by code_simp
  have e: "\<forall>s\<in>set ?ss. length (str_split s) < 8" by code_simp
  have f: "generate_flashcards unavailable choppy_text 2 2 1 [3, 1, 4] = Inr ([], [3, 1, 4])"
    using generate_flashcards_empty [of choppy_text unavailable 2 2 1 "[3, 1, 4]" ?ss] d e
    by simp
  show ?thesis using a b c d f by simp
qed

text \<open>
  Claim C10.  On a sentence of fewer than 8 whitespace-separated words the true/false
  generator returns no cards at all, whatever the keyword list.
\<close>

theorem create_true_false_short:
  "length (str_split sentence) < 8 \<Longrightarrow>
   create_true_false_from_sentence env sentence keywords r = Inr (None, r)"
  by (simp add: create_true_false_from_sentence_def)

theorem create_true_false_short_witness:
  "length (str_split ''Mitochondria produce ATP through respiration.'') = 5 \<and>
   create_true_false_from_sentence unavailable ''Mitochondria produce ATP through respiration.''
     [''mitochondria'', ''respiration''] [1, 2] = Inr (None, [1, 2])"
proof -
  have a: "length (str_split ''Mitochondria produce ATP through respiration.'') = 5"
    by code_simp
  then have "length (str_split ''Mitochondria produce ATP through respiration.'') < 8"
    by simp
  from create_true_false_short [OF this] a show ?thesis by simp
qed

lemma fill_loop_None:
  "fill_loop keywords words i rest = None \<longleftrightarrow>
     (\<forall>w\<in>set rest. \<not> (clean_word w \<in> set keywords \<and> length (clean_word w) > 3))"
  by (induction rest arbitrary: i) auto

lemma fill_loop_Some:
  "\<exists>w\<in>set rest. clean_word w \<in> set keywords \<and> length (clean_word w) > 3 \<Longrightarrow>
   \<exists>k<length rest.
      (clean_word (rest ! k) \<in> set keywords \<and> length (clean_word (rest ! k)) > 3) \<and>
      (\<forall>j<k. \<not> (clean_word (rest ! j) \<in> set keywords \<and> length (clean_word (rest ! j)) > 3)) \<and>
      fill_loop keywords words i rest = Some (fill_card words (i + k) (rest ! k))"
proof (induction rest arbitrary: i)
  case Nil
  then show ?case by simp
next
  case (Cons word rest)
  show ?case
  proof (cases "clean_word word \<in> set keywords \<and> length (clean_word word) > 3")
    case True
    then have "(clean_word ((word # rest) ! 0) \<in> set keywords \<and> length (clean_word ((word # rest) ! 0)) > 3) \<and>
      (\<forall>j<0. \<not> (clean_word ((word # rest) ! j) \<in> set keywords \<and> length (clean_word ((word # rest) ! j)) > 3)) \<and>
      fill_loop keywords words i (word # rest) = Some (fill_card words (i + 0) ((word # rest) ! 0))"
      by simp
    then show ?thesis by (intro exI [of _ 0]) simp
  next
    case False
    with Cons.prems have "\<exists>w\<in>set rest. clean_word w \<in> set keywords \<and> length (clean_word w) > 3"
      by auto
    from Cons.IH [OF this, of "Suc i"]
    obtain k where k: "k < length rest"
      "clean_word (rest ! k) \<in> set keywords" "length (clean_word (rest ! k)) > 3"
      "\<forall>j<k. \<not> (clean_word (rest ! j) \<in> set keywords \<and> length (clean_word (rest ! j)) > 3)"
      "fill_loop keywords words (Suc i) rest = Some (fill_card words (Suc i + k) (rest ! k))"
      by (elim exE conjE)
    have a: "\<forall>j<Suc k. \<not> (clean_word ((word # rest) ! j) \<in> set keywords \<and> length (clean_word ((word # rest) ! j)) > 3)"
    proof (intro allI impI)
      fix j assume "j < Suc k"
      then show "\<not> (clean_word ((word # rest) ! j) \<in> set keywords \<and> length (clean_word ((word # rest) ! j)) > 3)"
        using False k(4) by (cases j) auto
    qed
    have b: "fill_loop keywords words i (word # rest) = Some (fill_card words (i + Suc k) ((word # rest) ! Suc k))"
      using False k(5) by auto
    show ?thesis
      using k(1,2,3) a b by (intro exI [of _ "Suc k"]) simp
  qed
qed

text \<open>
  Claim C2.  The fill-in-the-blank generator returns no card when the sentence has
  fewer than 10 words or when no word qualifies.  Otherwise it blanks the first word,
  from the left, whose cleaned form (lowercased, characters outside \<^verbatim>\<open>\w\<close> removed) is
  a keyword of more than 3 characters: the question is the words joined by blanks with
  that word replaced by the marker, the recorded answer is the word itself, so the
  blanked word and the answer have the same cleaned form, which is a keyword.
\<close>

theorem create_fill_blank_first_keyword:
  "(length (str_split sentence) < 10 \<or>
    (\<forall>w\<in>set (str_split sentence).
        \<not> (clean_word w \<in> set keywords \<and> length (clean_word w) > 3)) \<longrightarrow>
      create_fill_blank_from_sentence sentence keywords = None) \<and>
   (10 \<le> length (str_split sentence) \<and>
    (\<exists>w\<in>set (str_split sentence). clean_word w \<in> set keywords \<and> length (clean_word w) > 3) \<longrightarrow>
      (\<exists>i c. i < length (str_split sentence) \<and>
         clean_word (str_split sentence ! i) \<in> set keywords \<and>
         length (clean_word (str_split sentence ! i)) > 3 \<and>
         (\<forall>j<i. \<not> (clean_word (str_split sentence ! j) \<in> set keywords \<and>
                      length (clean_word (str_split sentence ! j)) > 3)) \<and>
         create_fill_blank_from_sentence sentence keywords = Some c \<and>
         question c =
           ''Fill in the blank: '' @ str_join '' '' ((str_split sentence)[i := blank]) \<and>
         correct_answer c = str_split sentence ! i \<and>
         clean_word (correct_answer c) = clean_word (str_split sentence ! i)))"
proof (intro conjI impI)
  assume "length (str_split sentence) < 10 \<or>
    (\<forall>w\<in>set (str_split sentence).
        \<not> (clean_word w \<in> set keywords \<and> length (clean_word w) > 3))"
  then show "create_fill_blank_from_sentence sentence keywords = None"
    by (auto simp: create_fill_blank_from_sentence_def Let_def fill_loop_None)
next
  let ?ws = "str_split sentence"
  assume h: "10 \<le> length ?ws \<and>
    (\<exists>w\<in>set ?ws. clean_word w \<in> set keywords \<and> length (clean_word w) > 3)"
  then have "\<exists>w\<in>set ?ws. clean_word w \<in> set keywords \<and> length (clean_word w) > 3" by simp
  from fill_loop_Some [OF this, of ?ws 0]
  obtain k where k: "k < length ?ws"
      "clean_word (?ws ! k) \<in> set keywords" "length (clean_word (?ws ! k)) > 3"
      "\<forall>j<k. \<not> (clean_word (?ws ! j) \<in> set keywords \<and> length (clean_word (?ws ! j)) > 3)"
      "fill_loop keywords ?ws 0 ?ws = Some (fill_card ?ws (0 + k) (?ws ! k))"
    by (elim exE conjE)
  have r: "create_fill_blank_from_sentence sentence keywords = Some (fill_card ?ws k (?ws ! k))"
    using h k(5) by (simp add: create_fill_blank_from_sentence_def Let_def)
  have q: "question (fill_card ?ws k (?ws ! k)) =
           ''Fill in the blank: '' @ str_join '' '' (?ws[k := blank])"
    by (simp add: fill_card_def)
  have a: "correct_answer (fill_card ?ws k (?ws ! k)) = ?ws ! k"
    by (simp add: fill_card_def)
  show "\<exists>i c. i < length ?ws \<and>
         clean_word (?ws ! i) \<in> set keywords \<and>
         length (clean_word (?ws ! i)) > 3 \<and>
         (\<forall>j<i. \<not> (clean_word (?ws ! j) \<in> set keywords \<and>
                      length (clean_word (?ws ! j)) > 3)) \<and>
         create_fill_blank_from_sentence sentence keywords = Some c \<and>
         question c = ''Fill in the blank: '' @ str_join '' '' (?ws[i := blank]) \<and>
         correct_answer c = ?ws ! i \<and>
         clean_word (correct_answer c) = clean_word (?ws ! i)"
    using k(1,2,3,4) r q a
    by (intro exI [of _ k] exI [of _ "fill_card ?ws k (?ws ! k)"]) simp
qed

theorem create_fill_blank_first_keyword_witness:
  "length (str_split cell_sentence) = 10 \<and>
   clean_word ''Mitochondria,'' = ''mitochondria'' \<and>
   create_fill_blank_from_sentence cell_sentence [''cell'', ''mitochondria''] =
     Some (Fill_blank
       ''Fill in the blank: The ________ is the powerhouse of every living cell today.''
       ''Mitochondria,''
       (''The correct word is '' @ [CHR 0x27] @ ''Mitochondria,'' @ [CHR 0x27]
          @ '' based on the context.'')) \<and>
   create_fill_blank_from_sentence ''Cells divide fast.'' [''cells''] = None \<and>
   create_fill_blank_from_sentence cell_sentence [''whale''] = None"
proof -
  have l: "length (str_split cell_sentence) = 10" by code_simp
  have c: "clean_word ''Mitochondria,'' = ''mitochondria''" by code_simp
  have r: "create_fill_blank_from_sentence cell_sentence [''cell'', ''mitochondria''] =
     Some (Fill_blank
       ''Fill in the blank: The ________ is the powerhouse of every living cell today.''
       ''Mitochondria,''
       (''The correct word is '' @ [CHR 0x27] @ ''Mitochondria,'' @ [CHR 0x27]
          @ '' based on the context.''))"
    by code_simp
  have s: "length (str_split ''Cells divide fast.'') < 10" by code_simp
  have n1: "create_fill_blank_from_sentence ''Cells divide fast.'' [''cells''] = None"
    using create_fill_blank_first_keyword [of "''Cells divide fast.''" "[''cells'']"] s
    by simp
  have nq: "\<forall>w\<in>set (str_split cell_sentence).
        \<not> (clean_word w \<in> set [''whale''] \<and> length (clean_word w) > 3)"
    by code_simp
  have n2: "create_fill_blank_from_sentence cell_sentence [''whale''] = None"
    using create_fill_blank_first_keyword [of cell_sentence "[''whale'']"] nq
    by simp
  show ?thesis using l c r n1 n2 by simp
qed
















lemma with_cards_simps:
  "with_cards acc (Inl e) = Inl e"
  "with_cards acc (Inr (cs, r)) = Inr (acc @ cs, r)"
  by (simp_all add: with_cards_def)

lemma with_cards_Nil: "with_cards [] res = res"
  by (simp add: with_cards_def split: sum.splits)

lemma with_cards_with_cards: "with_cards a (with_cards b res) = with_cards (a @ b) res"
  by (simp add: with_cards_def split: sum.splits)

lemma attempt_until_zero: "attempt_until gen 0 pool r = Inr ([], r)"
  by (cases pool) simp_all

lemma attempt_until_Cons:
  "0 < quota \<Longrightarrow> gen sentence r = Inr (cards, r') \<Longrightarrow>
   attempt_until gen quota (sentence # pool) r =
     with_cards (take quota cards) (attempt_until gen (quota - length (take quota cards)) pool r')"
  by (simp add: with_cards_def split: sum.splits)

lemma attempt_until_returns:
  assumes "\<And>s r. \<exists>cs r'. gen s r = Inr (cs, r') \<and> (\<forall>c\<in>set cs. P c)"
  shows "\<exists>cs r'. attempt_until gen quota pool r = Inr (cs, r') \<and> length cs \<le> quota \<and>
           (\<forall>c\<in>set cs. P c)"
proof (induction pool arbitrary: quota r)
  case Nil
  then show ?case by simp
next
  case (Cons s pool)
  show ?case
  proof (cases "quota = 0")
    case True
    then show ?thesis by simp
  next
    case False
    obtain cs r1 where g: "gen s r = Inr (cs, r1)" and p: "\<forall>c\<in>set cs. P c"
      using assms [of s r] by (elim exE conjE)
    from Cons.IH [of "quota - length (take quota cs)" r1]
    obtain later r2 where
      a: "attempt_until gen (quota - length (take quota cs)) pool r1 = Inr (later, r2)"
      and l: "length later \<le> quota - length (take quota cs)"
      and q: "\<forall>c\<in>set later. P c"
      by (elim exE conjE)
    have "attempt_until gen quota (s # pool) r = Inr (take quota cs @ later, r2)"
      using False g a by simp
    moreover have "length (take quota cs @ later) \<le> quota" using l by simp
    moreover have "\<forall>c\<in>set (take quota cs @ later). P c"
      using p q by (auto dest: in_set_takeD)
    ultimately show ?thesis by (intro exI conjI)
  qed
qed

lemma create_mcq_card_type:
  assumes "create_mcq_from_sentence env sentence keywords r = Inr (Some c, r')"
  shows "card_type c = ''mcq''"
proof -
  obtain cw where cw: "mcq_content_words env sentence = Inr cw"
    using mcq_content_words_returns [of env sentence] by (elim exE)
  have ne: "cw \<noteq> []"
    using assms cw by (auto simp: create_mcq_from_sentence_def)
  from create_mcq_Some [OF cw ne, of "keywords" r] assms show ?thesis by auto
qed

lemma mcq_gen_returns:
  "\<exists>cs r'. mcq_gen env keywords s r = Inr (cs, r') \<and> (\<forall>c\<in>set cs. card_type c = ''mcq'')"
proof -
  obtain res r' where c: "create_mcq_from_sentence env s keywords r = Inr (res, r')"
    using create_mcq_returns [of env s "keywords" r] by (elim exE)
  show ?thesis
  proof (cases res)
    case None
    with c show ?thesis by (simp add: mcq_gen_def)
  next
    case (Some card)
    with c create_mcq_card_type [of env s "keywords" r card r'] show ?thesis
      by (simp add: mcq_gen_def)
  qed
qed

lemma create_true_false_card_type:
  assumes "create_true_false_from_sentence env sentence keywords r = Inr (Some cards, r')"
  shows "\<forall>c\<in>set cards. card_type c = ''true_false''"
proof -
  obtain cw where cw: "tf_content_words env sentence = Inr cw"
    using tf_content_words_returns [of env sentence] by (elim exE)
  show ?thesis
  proof (cases "cw \<noteq> [] \<and> keywords \<noteq> []")
    case True
    then have "keywords \<noteq> []" by simp
    from tf_loop_returns [OF this, of sentence cw r] assms cw True show ?thesis
      by (auto simp: create_true_false_from_sentence_def true_q_def false_q_def
               split: if_splits)
  next
    case False
    with assms cw show ?thesis
      by (auto simp: create_true_false_from_sentence_def true_q_def split: if_splits)
  qed
qed

lemma tf_gen_returns:
  "\<exists>cs r'. tf_gen env keywords s r = Inr (cs, r') \<and> (\<forall>c\<in>set cs. card_type c = ''true_false'')"
proof -
  obtain res r' where c: "create_true_false_from_sentence env s keywords r = Inr (res, r')"
    using create_true_false_returns [of env s "keywords" r] by (elim exE)
  show ?thesis
  proof (cases res)
    case None
    with c show ?thesis by (simp add: tf_gen_def)
  next
    case (Some cards)
    with c create_true_false_card_type [of env s "keywords" r cards r'] show ?thesis
      by (simp add: tf_gen_def)
  qed
qed

lemma fill_loop_card_type:
  "fill_loop keywords words i rest = Some c \<Longrightarrow> card_type c = ''fill_blank''"
  by (induction rest arbitrary: i) (auto simp: fill_card_def split: if_splits)

lemma create_fill_blank_card_type:
  "create_fill_blank_from_sentence sentence keywords = Some c \<Longrightarrow> card_type c = ''fill_blank''"
  by (auto simp: create_fill_blank_from_sentence_def Let_def fill_loop_card_type
           split: if_splits)

lemma fill_gen_returns:
  "\<exists>cs r'. fill_gen keywords s r = Inr (cs, r') \<and> (\<forall>c\<in>set cs. card_type c = ''fill_blank'')"
  by (cases "create_fill_blank_from_sentence s keywords")
     (simp_all add: fill_gen_def create_fill_blank_card_type)

lemma mcq_cards_loop_refines:
  "length (filter (\<lambda>c. card_type c = ''mcq'') acc) < num_mcq \<Longrightarrow>
   mcq_cards_loop env keywords num_mcq pool acc r =
     with_cards acc
       (attempt_until (mcq_gen env keywords)
          (num_mcq - length (filter (\<lambda>c. card_type c = ''mcq'') acc)) pool r)"
proof (induction pool arbitrary: acc r)
  case Nil
  then show ?case by (simp add: with_cards_simps)
next
  case (Cons s pool)
  let ?m = "length (filter (\<lambda>c. card_type c = ''mcq'') acc)"
  have q: "0 < num_mcq - ?m" using Cons.prems by simp
  obtain res r1 where c: "create_mcq_from_sentence env s keywords r = Inr (res, r1)"
    using create_mcq_returns [of env s "keywords" r] by (elim exE)
  show ?case
  proof (cases res)
    case None
    have g: "mcq_gen env keywords s r = Inr ([], r1)"
      using c None by (simp add: mcq_gen_def)
    have "mcq_cards_loop env keywords num_mcq (s # pool) acc r =
            mcq_cards_loop env keywords num_mcq pool acc r1"
      using c None by simp
    also have "\<dots> = with_cards acc
       (attempt_until (mcq_gen env keywords) (num_mcq - ?m) pool r1)"
      by (rule Cons.IH [OF Cons.prems])
    also have "\<dots> = with_cards acc
       (attempt_until (mcq_gen env keywords) (num_mcq - ?m) (s # pool) r)"
      using attempt_until_Cons [where gen="mcq_gen env keywords" and sentence=s and pool=pool,
            OF q g]
        by (simp add: with_cards_Nil)
    finally show ?thesis .
  next
    case (Some card)
    have ty: "card_type card = ''mcq''"
      using c Some create_mcq_card_type [of env s "keywords" r card r1] by simp
    have g: "mcq_gen env keywords s r = Inr ([card], r1)"
      using c Some by (simp add: mcq_gen_def)
    have cnt: "length (filter (\<lambda>c. card_type c = ''mcq'') (acc @ [card])) = Suc ?m"
      using ty by simp
    have tk: "take (num_mcq - ?m) [card] = [card]" using q by (cases "num_mcq - ?m") simp_all
    have spec: "attempt_until (mcq_gen env keywords) (num_mcq - ?m) (s # pool) r =
       with_cards [card] (attempt_until (mcq_gen env keywords) (num_mcq - Suc ?m) pool r1)"
      using attempt_until_Cons [where gen="mcq_gen env keywords" and sentence=s and pool=pool,
            OF q g] tk
        by simp
    show ?thesis
    proof (cases "num_mcq \<le> Suc ?m")
      case True
      then have z: "num_mcq - Suc ?m = 0" by simp
      have "mcq_cards_loop env keywords num_mcq (s # pool) acc r = Inr (acc @ [card], r1)"
        using c Some cnt True by simp
      also have "\<dots> = with_cards acc
         (attempt_until (mcq_gen env keywords) (num_mcq - ?m) (s # pool) r)"
        by (simp only: spec z attempt_until_zero with_cards_simps append_Nil2)
      finally show ?thesis .
    next
      case False
      then have lt: "length (filter (\<lambda>c. card_type c = ''mcq'') (acc @ [card])) < num_mcq"
        using cnt by simp
      have "mcq_cards_loop env keywords num_mcq (s # pool) acc r =
              mcq_cards_loop env keywords num_mcq pool (acc @ [card]) r1"
        using c Some cnt False by simp
      also have "\<dots> = with_cards (acc @ [card])
         (attempt_until (mcq_gen env keywords) (num_mcq - Suc ?m) pool r1)"
        using Cons.IH [OF lt, of r1] cnt by simp
      also have "\<dots> = with_cards acc
         (attempt_until (mcq_gen env keywords) (num_mcq - ?m) (s # pool) r)"
        by (simp only: spec with_cards_with_cards)
      finally show ?thesis .
    qed
  qed
qed

lemma tf_cards_loop_refines:
  "tf_cards_loop env keywords num_tf pool acc tf_count r =
     with_cards acc (attempt_until (tf_gen env keywords) (num_tf - tf_count) pool r)"
proof (induction pool arbitrary: acc tf_count r)
  case Nil
  then show ?case by (simp add: with_cards_simps)
next
  case (Cons s pool)
  show ?case
  proof (cases "num_tf \<le> tf_count")
    case True
    then show ?thesis by (simp add: with_cards_simps)
  next
    case False
    then have q: "0 < num_tf - tf_count" by simp
    obtain res r1 where c: "create_true_false_from_sentence env s keywords r = Inr (res, r1)"
      using create_true_false_returns [of env s "keywords" r] by (elim exE)
    show ?thesis
    proof (cases res)
      case None
      have g: "tf_gen env keywords s r = Inr ([], r1)"
        using c None by (simp add: tf_gen_def)
      have "tf_cards_loop env keywords num_tf (s # pool) acc tf_count r =
              tf_cards_loop env keywords num_tf pool acc tf_count r1"
        using c None False by simp
      also have "\<dots> = with_cards acc
         (attempt_until (tf_gen env keywords) (num_tf - tf_count) pool r1)"
        by (rule Cons.IH)
      also have "\<dots> = with_cards acc
         (attempt_until (tf_gen env keywords) (num_tf - tf_count) (s # pool) r)"
        using attempt_until_Cons [where gen="tf_gen env keywords" and sentence=s and pool=pool,
            OF q g]
        by (simp add: with_cards_Nil)
      finally show ?thesis .
    next
      case (Some tfq)
      let ?got = "take (num_tf - tf_count) tfq"
      have g: "tf_gen env keywords s r = Inr (tfq, r1)"
        using c Some by (simp add: tf_gen_def)
      have spec: "attempt_until (tf_gen env keywords) (num_tf - tf_count) (s # pool) r =
         with_cards ?got
           (attempt_until (tf_gen env keywords) (num_tf - tf_count - length ?got) pool r1)"
        by (rule attempt_until_Cons [where gen="tf_gen env keywords" and sentence=s and pool=pool,
            OF q g])
      have "tf_cards_loop env keywords num_tf (s # pool) acc tf_count r =
              tf_cards_loop env keywords num_tf pool (acc @ ?got) (tf_count + length ?got) r1"
        using c Some False by (cases "tfq = []") simp_all
      also have "\<dots> = with_cards (acc @ ?got)
         (attempt_until (tf_gen env keywords) (num_tf - (tf_count + length ?got)) pool r1)"
        by (rule Cons.IH)
      also have "num_tf - (tf_count + length ?got) = num_tf - tf_count - length ?got"
        by simp
      finally show ?thesis by (simp only: spec with_cards_with_cards)
    qed
  qed
qed

lemma fill_cards_loop_refines:
  "with_cards acc
     (attempt_until (fill_gen keywords)
        (num_fill - length (filter (\<lambda>c. card_type c = ''fill_blank'') acc)) pool r)
   = Inr (fill_cards_loop keywords num_fill pool acc, r)"
proof (induction pool arbitrary: acc)
  case Nil
  then show ?case by (simp add: with_cards_simps)
next
  case (Cons s pool)
  let ?m = "length (filter (\<lambda>c. card_type c = ''fill_blank'') acc)"
  show ?case
  proof (cases "num_fill \<le> ?m")
    case True
    then show ?thesis by (simp add: with_cards_simps)
  next
    case False
    then have q: "0 < num_fill - ?m" by simp
    show ?thesis
    proof (cases "create_fill_blank_from_sentence s keywords")
      case None
      have g: "fill_gen keywords s r = Inr ([], r)"
        using None by (simp add: fill_gen_def)
      have "with_cards acc (attempt_until (fill_gen keywords) (num_fill - ?m) (s # pool) r)
            = with_cards acc (attempt_until (fill_gen keywords) (num_fill - ?m) pool r)"
        using attempt_until_Cons [where gen="fill_gen keywords" and sentence=s and pool=pool,
            OF q g]
        by (simp add: with_cards_Nil)
      also have "\<dots> = Inr (fill_cards_loop keywords num_fill pool acc, r)"
        by (rule Cons.IH)
      also have "fill_cards_loop keywords num_fill pool acc =
                 fill_cards_loop keywords num_fill (s # pool) acc"
        using None False by simp
      finally show ?thesis .
    next
      case (Some card)
      have ty: "card_type card = ''fill_blank''"
        using Some by (rule create_fill_blank_card_type)
      have g: "fill_gen keywords s r = Inr ([card], r)"
        using Some by (simp add: fill_gen_def)
      have cnt: "length (filter (\<lambda>c. card_type c = ''fill_blank'') (acc @ [card])) = Suc ?m"
        using ty by simp
      have tk: "take (num_fill - ?m) [card] = [card]"
        using q by (cases "num_fill - ?m") simp_all
      have spec: "attempt_until (fill_gen keywords) (num_fill - ?m) (s # pool) r =
         with_cards [card] (attempt_until (fill_gen keywords) (num_fill - Suc ?m) pool r)"
        using attempt_until_Cons [where gen="fill_gen keywords" and sentence=s and pool=pool,
            OF q g] tk
        by simp
      have "with_cards acc (attempt_until (fill_gen keywords) (num_fill - ?m) (s # pool) r)
            = with_cards (acc @ [card])
                (attempt_until (fill_gen keywords) (num_fill - Suc ?m) pool r)"
        by (simp only: spec with_cards_with_cards)
      also have "\<dots> = Inr (fill_cards_loop keywords num_fill pool (acc @ [card]), r)"
        using Cons.IH [of "acc @ [card]"] cnt by simp
      also have "fill_cards_loop keywords num_fill pool (acc @ [card]) =
                 fill_cards_loop keywords num_fill (s # pool) acc"
        using Some False by simp
      finally show ?thesis .
    qed
  qed
qed

lemma assemble_deck_refines:
  "assemble_deck env keywords pool num_mcq num_tf num_fill r =
     deck_assembly_spec env keywords (take (num_mcq * 2) pool) pool num_mcq num_tf num_fill r"
proof -
  let ?mp = "take (num_mcq * 2) pool"
  obtain mcqs r1 where
    a1: "attempt_until (mcq_gen env keywords) num_mcq ?mp r = Inr (mcqs, r1)"
    and t1: "\<forall>c\<in>set mcqs. card_type c = ''mcq''"
    using attempt_until_returns [of "mcq_gen env keywords" "\<lambda>c. card_type c = ''mcq''"
            num_mcq ?mp r, OF mcq_gen_returns]
    by (elim exE conjE)
  have l1: "mcq_cards_loop env keywords num_mcq ?mp [] r = Inr (mcqs, r1)"
  proof (cases "num_mcq = 0")
    case True
    with a1 show ?thesis by simp
  next
    case False
    then have "length (filter (\<lambda>c. card_type c = ''mcq'') []) < num_mcq" by simp
    from mcq_cards_loop_refines [OF this, of env "keywords" ?mp r] a1
    show ?thesis by (simp add: with_cards_simps)
  qed
  obtain tfs r2 where
    a2: "attempt_until (tf_gen env keywords) num_tf pool r1 = Inr (tfs, r2)"
    and t2: "\<forall>c\<in>set tfs. card_type c = ''true_false''"
    using attempt_until_returns [of "tf_gen env keywords" "\<lambda>c. card_type c = ''true_false''"
            num_tf pool r1, OF tf_gen_returns]
    by (elim exE conjE)
  have l2: "tf_cards_loop env keywords num_tf pool mcqs 0 r1 = Inr (mcqs @ tfs, r2)"
    using tf_cards_loop_refines [of env "keywords" num_tf pool mcqs 0 r1] a2
    by (simp add: with_cards_simps)
  have nofill: "filter (\<lambda>c. card_type c = ''fill_blank'') (mcqs @ tfs) = []"
    using t1 t2 by (auto simp: filter_empty_conv)
  obtain fills r3 where
    a3: "attempt_until (fill_gen keywords) num_fill pool r2 = Inr (fills, r3)"
    using attempt_until_returns [of "fill_gen keywords" "\<lambda>c. card_type c = ''fill_blank''"
            num_fill pool r2, OF fill_gen_returns]
    by (elim exE conjE)
  have "with_cards (mcqs @ tfs) (attempt_until (fill_gen keywords) num_fill pool r2)
          = Inr (fill_cards_loop keywords num_fill pool (mcqs @ tfs), r2)"
    using fill_cards_loop_refines [of "mcqs @ tfs" "keywords" num_fill pool r2] nofill
    by simp
  with a3 have l3: "fill_cards_loop keywords num_fill pool (mcqs @ tfs) = mcqs @ tfs @ fills"
    and r3: "r3 = r2"
    by (simp_all add: with_cards_simps)
  show ?thesis
    by (simp add: assemble_deck_def deck_assembly_spec_def l1 l2 l3 a1 a2 a3 r3)
qed

lemma assemble_deck_returns:
  "\<exists>deck r'. assemble_deck env keywords pool num_mcq num_tf num_fill r = Inr (deck, r') \<and>
     length deck \<le> num_mcq + num_tf + num_fill"
proof -
  obtain cards1 r1 where
    a1: "attempt_until (mcq_gen env keywords) num_mcq (take (num_mcq * 2) pool) r
           = Inr (cards1, r1)"
    using attempt_until_returns [of "mcq_gen env keywords" "\<lambda>c. card_type c = ''mcq''"
            num_mcq "take (num_mcq * 2) pool" r, OF mcq_gen_returns]
    by (elim exE conjE)
  obtain cards2 r2 where
    a2: "attempt_until (tf_gen env keywords) num_tf pool r1 = Inr (cards2, r2)"
    using attempt_until_returns [of "tf_gen env keywords" "\<lambda>c. card_type c = ''true_false''"
            num_tf pool r1, OF tf_gen_returns]
    by (elim exE conjE)
  obtain cards3 r3 where
    a3: "attempt_until (fill_gen keywords) num_fill pool r2 = Inr (cards3, r3)"
    using attempt_until_returns [of "fill_gen keywords" "\<lambda>c. card_type c = ''fill_blank''"
            num_fill pool r2, OF fill_gen_returns]
    by (elim exE conjE)
  obtain deck r4 where sh: "shuffle (cards1 @ cards2 @ cards3) r3 = (deck, r4)"
    by (cases "shuffle (cards1 @ cards2 @ cards3) r3")
  have "assemble_deck env keywords pool num_mcq num_tf num_fill r
          = Inr (take (num_mcq + num_tf + num_fill) deck, r4)"
    by (simp add: assemble_deck_refines deck_assembly_spec_def a1 a2 a3 sh)
  moreover have "length (take (num_mcq + num_tf + num_fill) deck) \<le> num_mcq + num_tf + num_fill"
    by simp
  ultimately show ?thesis by (intro exI conjI)
qed

lemma generate_flashcards_returns:
  "\<exists>deck r'. generate_flashcards env text num_mcq num_tf num_fill r = Inr (deck, r') \<and>
     length deck \<le> num_mcq + num_tf + num_fill"
proof -
  obtain pool kws where k: "extract_key_sentences env text 25 = Inr (pool, kws)"
    using extract_key_sentences_returns [of env "text" 25] by (elim exE)
  show ?thesis
  proof (cases "text = [] \<or> length (str_strip text) < 100 \<or> pool = []")
    case True
    then have "generate_flashcards env text num_mcq num_tf num_fill r = Inr ([], r)"
      using k by (auto simp: generate_flashcards_def)
    then show ?thesis by simp
  next
    case False
    then have "generate_flashcards env text num_mcq num_tf num_fill r =
                 assemble_deck env kws pool num_mcq num_tf num_fill r"
      using k by (simp add: generate_flashcards_def)
    with assemble_deck_returns [of env kws pool num_mcq num_tf num_fill r]
    show ?thesis by simp
  qed
qed

lemma capped_facts:
  "capped_text \<noteq> []"
  "100 \<le> length (str_strip capped_text)"
  "extract_key_sentences unavailable capped_text 25 = Inr (capped_pool, [])"
  "generate_flashcards unavailable capped_text 1 0 0 [] = Inr ([], [])"
  "deck_assembly_spec unavailable [] capped_pool capped_pool 1 0 0 [] =
     Inr ([Mcq ''Complete the sentence: ________ is in it we do see so as.''
             [''theory'', ''model'', ''whale'', ''concept''] ''whale'' 2
             (''The correct answer is '' @ [CHR 0x27] @ ''whale'' @ [CHR 0x27]
                @ '' based on the context.'')], [])"
  by code_simp+

text \<open>
  Claim C6, as stated, fails: the multiple-choice loop does not walk the whole pool.
  The text below has three ranked sentences, all of score 0; the first two have no
  content word, the third has \<open>whale\<close>.  With a quota of one multiple-choice card the
  generator attempts only the first two sentences and returns the empty deck, while
  the loop of the specification goes on to the third sentence and yields a card.
\<close>

theorem deck_assembly_counterexample:
  "extract_key_sentences unavailable capped_text 25 = Inr (capped_pool, []) \<and>
   generate_flashcards unavailable capped_text 1 0 0 [] = Inr ([], []) \<and>
   deck_assembly_spec unavailable [] capped_pool capped_pool 1 0 0 [] =
     Inr ([Mcq ''Complete the sentence: ________ is in it we do see so as.''
             [''theory'', ''model'', ''whale'', ''concept''] ''whale'' 2
             (''The correct answer is '' @ [CHR 0x27] @ ''whale'' @ [CHR 0x27]
                @ '' based on the context.'')], []) \<and>
   generate_flashcards unavailable capped_text 1 0 0 []
     \<noteq> deck_assembly_spec unavailable [] capped_pool capped_pool 1 0 0 []"
  using capped_facts by simp

text \<open>
  Claim C6, amended.  \<open>generate_flashcards\<close> always returns a deck of at most
  \<open>num_mcq + num_tf + num_fill\<close> cards.  When the text is long enough and the ranked
  pool is not empty, the deck is the one the specification's loops assemble, with the
  multiple-choice loop run over the first \<open>2 * num_mcq\<close> ranked sentences only and the
  other two loops over the whole pool: each loop takes the sentences in ranked order,
  stops when its quota is met or its sentences are exhausted, and never returns to a
  sentence; the cards are concatenated, shuffled and truncated to the sum of the quotas.
\<close>

theorem generate_flashcards_assembly:
  "(\<exists>deck r'. generate_flashcards env text num_mcq num_tf num_fill r = Inr (deck, r') \<and>
      length deck \<le> num_mcq + num_tf + num_fill) \<and>
   (text \<noteq> [] \<and> 100 \<le> length (str_strip text) \<and>
    extract_key_sentences env text 25 = Inr (pool, kws) \<and> pool \<noteq> [] \<longrightarrow>
      generate_flashcards env text num_mcq num_tf num_fill r =
        deck_assembly_spec env kws (take (num_mcq * 2) pool) pool num_mcq num_tf num_fill r)"
proof
  show "\<exists>deck r'. generate_flashcards env text num_mcq num_tf num_fill r = Inr (deck, r') \<and>
      length deck \<le> num_mcq + num_tf + num_fill"
    by (rule generate_flashcards_returns)
next
  show "text \<noteq> [] \<and> 100 \<le> length (str_strip text) \<and>
    extract_key_sentences env text 25 = Inr (pool, kws) \<and> pool \<noteq> [] \<longrightarrow>
      generate_flashcards env text num_mcq num_tf num_fill r =
        deck_assembly_spec env kws (take (num_mcq * 2) pool) pool num_mcq num_tf num_fill r"
  proof
    assume h: "text \<noteq> [] \<and> 100 \<le> length (str_strip text) \<and>
      extract_key_sentences env text 25 = Inr (pool, kws) \<and> pool \<noteq> []"
    then have "generate_flashcards env text num_mcq num_tf num_fill r =
                 assemble_deck env kws pool num_mcq num_tf num_fill r"
      by (simp add: generate_flashcards_def)
    then show "generate_flashcards env text num_mcq num_tf num_fill r =
        deck_assembly_spec env kws (take (num_mcq * 2) pool) pool num_mcq num_tf num_fill r"
      by (simp add: assemble_deck_refines)
  qed
qed

theorem generate_flashcards_assembly_witness:
  "capped_text \<noteq> [] \<and> 100 \<le> length (str_strip capped_text) \<and>
   extract_key_sentences unavailable capped_text 25 = Inr (capped_pool, []) \<and>
   take (2 * 2) capped_pool = capped_pool \<and>
   generate_flashcards unavailable capped_text 2 1 0 [] =
     deck_assembly_spec unavailable [] capped_pool capped_pool 2 1 0 [] \<and>
   generate_flashcards unavailable capped_text 2 1 0 [] =
     Inr ([true_q ''it is an ox or a cat so it is an ox or a cat so.'',
           Mcq ''Complete the sentence: ________ is in it we do see so as.''
             [''theory'', ''model'', ''whale'', ''concept''] ''whale'' 2
             (''The correct answer is '' @ [CHR 0x27] @ ''whale'' @ [CHR 0x27]
                @ '' based on the context.'')], [])"
proof -
  have p: "capped_pool \<noteq> []" by (simp add: capped_pool_def)
  have t: "take (2 * 2) capped_pool = capped_pool" by (simp add: capped_pool_def)
  have e: "generate_flashcards unavailable capped_text 2 1 0 [] =
     deck_assembly_spec unavailable [] (take (2 * 2) capped_pool) capped_pool 2 1 0 []"
    using generate_flashcards_assembly
            [of unavailable capped_text 2 1 0 "[]" capped_pool "[]"]
          capped_facts(1,2,3) p
    by simp
  have v: "generate_flashcards unavailable capped_text 2 1 0 [] =
     Inr ([true_q ''it is an ox or a cat so it is an ox or a cat so.'',
           Mcq ''Complete the sentence: ________ is in it we do see so as.''
             [''theory'', ''model'', ''whale'', ''concept''] ''whale'' 2
             (''The correct answer is '' @ [CHR 0x27] @ ''whale'' @ [CHR 0x27]
                @ '' based on the context.'')], [])"
    by code_simp
  show ?thesis using capped_facts(1,2,3) t e v by simp
qed

lemma safe_sent_tokenize_cong:
  "sent_tokenize env1 = sent_tokenize env2 \<Longrightarrow>
   safe_sent_tokenize env1 = safe_sent_tokenize env2"
  by (intro ext) (simp add: safe_sent_tokenize_def)

lemma safe_word_tokenize_cong:
  "word_tokenize env1 = word_tokenize env2 \<Longrightarrow>
   safe_word_tokenize env1 = safe_word_tokenize env2"
  by (intro ext) (simp add: safe_word_tokenize_def)

lemma content_word_cong: "set sw1 = set sw2 \<Longrightarrow> content_word sw1 = content_word sw2"
  by (intro ext) (simp add: content_word_def)

lemma extract_keywords_cong:
  assumes "word_tokenize env1 = word_tokenize env2"
    and "get_stopwords env1 = Inr sw1" and "get_stopwords env2 = Inr sw2"
    and "set sw1 = set sw2"
  shows "extract_keywords env1 = extract_keywords env2"
  using assms(2,3)
  by (intro ext)
     (simp add: extract_keywords_def safe_word_tokenize_cong [OF assms(1)]
                content_word_cong [OF assms(4)] split: sum.splits)

lemma score_sentences_cong:
  assumes "word_tokenize env1 = word_tokenize env2"
  shows "score_sentences env1 kws ss = score_sentences env2 kws ss"
  by (induction ss) (simp_all add: safe_word_tokenize_cong [OF assms] split: sum.splits)

lemma extract_key_sentences_cong:
  assumes "sent_tokenize env1 = sent_tokenize env2"
    and "word_tokenize env1 = word_tokenize env2"
    and "get_stopwords env1 = Inr sw1" and "get_stopwords env2 = Inr sw2"
    and "set sw1 = set sw2"
  shows "extract_key_sentences env1 = extract_key_sentences env2"
  by (intro ext)
     (simp add: extract_key_sentences_def safe_sent_tokenize_cong [OF assms(1)]
                extract_keywords_cong [OF assms(2,3,4,5)]
                score_sentences_cong [OF assms(2)] split: sum.splits)

lemma create_mcq_cong:
  assumes "word_tokenize env1 = word_tokenize env2"
    and "get_stopwords env1 = Inr sw1" and "get_stopwords env2 = Inr sw2"
    and "set sw1 = set sw2"
  shows "create_mcq_from_sentence env1 = create_mcq_from_sentence env2"
proof -
  have "mcq_content_words env1 = mcq_content_words env2"
    using assms(2,3)
    by (intro ext)
       (simp add: mcq_content_words_def safe_word_tokenize_cong [OF assms(1)]
                  content_word_cong [OF assms(4)] split: sum.splits)
  then show ?thesis by (intro ext) (simp add: create_mcq_from_sentence_def)
qed

lemma create_true_false_cong:
  assumes "get_stopwords env1 = Inr sw1" and "get_stopwords env2 = Inr sw2"
    and "set sw1 = set sw2"
  shows "create_true_false_from_sentence env1 = create_true_false_from_sentence env2"
proof -
  have "tf_content_words env1 = tf_content_words env2"
    using assms by (intro ext) (simp add: tf_content_words_def split: sum.splits)
  then show ?thesis by (intro ext) (simp add: create_true_false_from_sentence_def)
qed

lemma mcq_cards_loop_cong:
  assumes "create_mcq_from_sentence env1 = create_mcq_from_sentence env2"
  shows "mcq_cards_loop env1 kws n ss acc r = mcq_cards_loop env2 kws n ss acc r"
  by (induction ss arbitrary: acc r)
     (simp_all add: assms split: sum.splits prod.splits option.splits)

lemma tf_cards_loop_cong:
  assumes "create_true_false_from_sentence env1 = create_true_false_from_sentence env2"
  shows "tf_cards_loop env1 kws n ss acc c r = tf_cards_loop env2 kws n ss acc c r"
  by (induction ss arbitrary: acc c r)
     (simp_all add: assms split: sum.splits prod.splits option.splits)

lemma generate_flashcards_cong:
  assumes "sent_tokenize env1 = sent_tokenize env2"
    and "word_tokenize env1 = word_tokenize env2"
    and "get_stopwords env1 = Inr sw1" and "get_stopwords env2 = Inr sw2"
    and "set sw1 = set sw2"
  shows "generate_flashcards env1 = generate_flashcards env2"
proof -
  have "assemble_deck env1 = assemble_deck env2"
    by (intro ext)
       (simp add: assemble_deck_def
                  mcq_cards_loop_cong [OF create_mcq_cong [OF assms(2,3,4,5)]]
                  tf_cards_loop_cong [OF create_true_false_cong [OF assms(3,4,5)]]
             split: sum.splits prod.splits)
  then show ?thesis
    by (intro ext)
       (simp add: generate_flashcards_def extract_key_sentences_cong [OF assms]
             split: sum.splits prod.splits)
qed

text \<open>
  Claim C9.  Deck generation is a function of the text, the quotas, the linguistic
  resources and the state of the random source, and of nothing else.  The stop words
  are held in a Python set, whose iteration order is not fixed from one interpreter run
  to the next; the generator only tests membership in it.  Two runs are therefore taken
  in environments with the same tokenizers and the same stop words, listed in any order
  and with any repetitions.  Started from the same state of the random source, both
  runs return, with the same deck (same length, same cards in the same order, same
  fields) and the same final state.
\<close>

theorem generate_flashcards_deterministic:
  assumes "sent_tokenize env1 = sent_tokenize env2"
    and "word_tokenize env1 = word_tokenize env2"
    and "get_stopwords env1 = Inr sw1" and "get_stopwords env2 = Inr sw2"
    and "set sw1 = set sw2"
  shows "\<exists>deck r'.
     generate_flashcards env1 text num_mcq num_tf num_fill r = Inr (deck, r') \<and>
     generate_flashcards env2 text num_mcq num_tf num_fill r = Inr (deck, r')"
  using generate_flashcards_returns [of env1 "text" num_mcq num_tf num_fill r]
        generate_flashcards_cong [OF assms]
  by auto

theorem generate_flashcards_deterministic_witness:
  "sent_tokenize unavailable = sent_tokenize reordered \<and>
   word_tokenize unavailable = word_tokenize reordered \<and>
   get_stopwords unavailable \<noteq> get_stopwords reordered \<and>
   generate_flashcards unavailable reef_text 1 2 1 [3, 1, 4, 1, 5, 9, 2, 6, 5, 3, 7, 7] =
     Inr ([Mcq ''Complete the sentence: sharks hunt about the reef while the ________ sings because what it hears is with the pod and about the reef.''
             [''whale'', ''hears'', ''hunt'', ''sharks''] ''whale'' 0
             (''The correct answer is '' @ [CHR 0x27] @ ''whale'' @ [CHR 0x27]
                @ '' based on the context.''),
           false_q ''sharks hears about the reef while the whale sings because what it hears is with the pod and about the reef.'',
           true_q reef_text,
           Fill_blank ''Fill in the blank: ________ hunt about the reef while the whale sings because what it hears is with the pod and about the reef.''
             ''sharks''
             (''The correct word is '' @ [CHR 0x27] @ ''sharks'' @ [CHR 0x27]
                @ '' based on the context.'')], []) \<and>
   generate_flashcards reordered reef_text 1 2 1 [3, 1, 4, 1, 5, 9, 2, 6, 5, 3, 7, 7] =
     generate_flashcards unavailable reef_text 1 2 1 [3, 1, 4, 1, 5, 9, 2, 6, 5, 3, 7, 7]"
proof -
  have s: "sent_tokenize unavailable = sent_tokenize reordered"
    by (simp add: unavailable_def reordered_def)
  have w: "word_tokenize unavailable = word_tokenize reordered"
    by (simp add: unavailable_def reordered_def)
  have g1: "get_stopwords unavailable =
      Inr [''a'', ''an'', ''the'', ''and'', ''or'', ''but'', ''if'', ''because'', ''as'',
           ''what'', ''while'', ''of'', ''to'', ''in'', ''for'', ''on'', ''by'', ''with'',
           ''about'', ''is'', ''are'']"
    by (simp add: get_stopwords_def unavailable_def)
  have g2: "get_stopwords reordered =
      Inr [''are'', ''is'', ''about'', ''with'', ''by'', ''on'', ''for'', ''in'', ''to'', ''of'',
           ''while'', ''what'', ''as'', ''because'', ''if'', ''but'', ''or'', ''and'', ''the'',
           ''an'', ''a'', ''the'']"
    by (simp add: get_stopwords_def reordered_def)
  have e: "set [''a'', ''an'', ''the'', ''and'', ''or'', ''but'', ''if'', ''because'', ''as'',
           ''what'', ''while'', ''of'', ''to'', ''in'', ''for'', ''on'', ''by'', ''with'',
           ''about'', ''is'', ''are'']
         = set [''are'', ''is'', ''about'', ''with'', ''by'', ''on'', ''for'', ''in'', ''to'', ''of'',
           ''while'', ''what'', ''as'', ''because'', ''if'', ''but'', ''or'', ''and'', ''the'',
           ''an'', ''a'', ''the'']"
    by code_simp
  have d: "get_stopwords unavailable \<noteq> get_stopwords reordered"
    unfolding g1 g2 by simp
  have v: "generate_flashcards unavailable reef_text 1 2 1 [3, 1, 4, 1, 5, 9, 2, 6, 5, 3, 7, 7] =
     Inr ([Mcq ''Complete the sentence: sharks hunt about the reef while the ________ sings because what it hears is with the pod and about the reef.''
             [''whale'', ''hears'', ''hunt'', ''sharks''] ''whale'' 0
             (''The correct answer is '' @ [CHR 0x27] @ ''whale'' @ [CHR 0x27]
                @ '' based on the context.''),
           false_q ''sharks hears about the reef while the whale sings because what it hears is with the pod and about the reef.'',
           true_q reef_text,
           Fill_blank ''Fill in the blank: ________ hunt about the reef while the whale sings because what it hears is with the pod and about the reef.''
             ''sharks''
             (''The correct word is '' @ [CHR 0x27] @ ''sharks'' @ [CHR 0x27]
                @ '' based on the context.'')], [])"
    by code_simp
  have c: "generate_flashcards reordered reef_text 1 2 1 [3, 1, 4, 1, 5, 9, 2, 6, 5, 3, 7, 7] =
     generate_flashcards unavailable reef_text 1 2 1 [3, 1, 4, 1, 5, 9, 2, 6, 5, 3, 7, 7]"
    using generate_flashcards_deterministic
            [OF s w g1 g2 e, of reef_text 1 2 1 "[3, 1, 4, 1, 5, 9, 2, 6, 5, 3, 7, 7]"]
    by auto
  from s w d v c show ?thesis by (intro conjI)
qed

text \<open>
  Claim C1 does not hold of the code: the recorded answer can occur twice among the
  options.  The answer is excluded from the keyword distractors, but not from the
  generic words that pad a pool of fewer than three; \<open>concept\<close> is one of them.  In the
  run below the answer is \<open>concept\<close>, the keywords leave two distractors, the pool is
  padded, and the sample draws \<open>concept\<close>.  (That the options are four and that
  \<open>options[correct_index]\<close> is the answer holds in every run: lemma \<open>create_mcq_Some\<close>.)
\<close>

theorem mcq_options_repeat_answer:
  "extract_keywords unavailable concept_sentence 20 = Inr [''concept'', ''cell'', ''central''] \<and>
   create_mcq_from_sentence unavailable concept_sentence [''concept'', ''cell'', ''central'']
       [0, 2, 0, 0, 1, 0, 0] =
     Inr (Some (Mcq ''Complete the sentence: the ________ of a cell is central to biology.''
                  [''concept'', ''model'', ''concept'', ''cell''] ''concept'' 0
                  (''The correct answer is '' @ [CHR 0x27] @ ''concept'' @ [CHR 0x27]
                     @ '' based on the context.'')), []) \<and>
   count_list [''concept'', ''model'', ''concept'', ''cell''] ''concept'' = 2"
  by code_simp

text \<open>
  Claim C4 does not hold of the code: the answer is a token of the lowercased sentence,
  and it is replaced in the sentence as written.  A word written with a capital letter
  has no occurrence to replace, so the question is the whole sentence, without a blank.
  (In every run the question is \<open>str_replace1\<close> of the answer in the sentence and the
  answer is a content word: lemma \<open>create_mcq_Some\<close>.)
\<close>

theorem mcq_question_without_blank:
  "mcq_content_words unavailable whales_sentence
     = Inr [''whales'', ''largest'', ''animals'', ''living''] \<and>
   create_mcq_from_sentence unavailable whales_sentence
       [''whales'', ''largest'', ''animals'', ''living''] [0, 0, 0, 0, 1, 0, 0] =
     Inr (Some (Mcq (''Complete the sentence: '' @ whales_sentence)
                  [''whales'', ''animals'', ''largest'', ''living''] ''whales'' 0
                  (''The correct answer is '' @ [CHR 0x27] @ ''whales'' @ [CHR 0x27]
                     @ '' based on the context.'')), []) \<and>
   str_replace1 ''whales'' blank whales_sentence = whales_sentence"
  by code_simp

lemma first_index_less: "w \<in> set ws \<Longrightarrow> first_index w ws < length ws"
  unfolding first_index_def by (induction ws) auto

lemma first_index_append: "w \<in> set ws \<Longrightarrow> first_index w (ws @ vs) = first_index w ws"
  unfolding first_index_def by (induction ws) auto

lemma first_index_new: "w \<notin> set ws \<Longrightarrow> first_index w (ws @ [w]) = length ws"
  unfolding first_index_def by (induction ws) auto

lemma first_index_filter:
  "P a \<Longrightarrow> P b \<Longrightarrow> a \<in> set xs \<Longrightarrow> b \<in> set xs \<Longrightarrow>
   (first_index a (filter P xs) < first_index b (filter P xs))
     = (first_index a xs < first_index b xs)"
  unfolding first_index_def by (induction xs) auto

lemma count_list_filter:
  "count_list (filter P xs) a = (if P a then count_list xs a else 0)"
  by (induction xs) auto

lemma map_of_freq_add:
  "map_of (freq_add w d) = (map_of d)(w \<mapsto> (case map_of d w of None \<Rightarrow> 1 | Some c \<Rightarrow> Suc c))"
  by (induction d) (auto simp: fun_eq_iff)

lemma keys_freq_add:
  "map fst (freq_add w d) = (if w \<in> set (map fst d) then map fst d else map fst d @ [w])"
proof (induction d)
  case Nil
  then show ?case by simp
next
  case (Cons p d)
  obtain v c where p: "p = (v, c)" by (cases p)
  show ?case
  proof (cases "v = w")
    case True
    with p show ?thesis by simp
  next
    case False
    with p Cons.IH show ?thesis by (cases "w \<in> set (map fst d)") simp_all
  qed
qed

lemma FreqDist_snoc: "FreqDist (ws @ [w]) = freq_add w (FreqDist ws)"
  by (simp add: FreqDist_def)

lemma set_keys_FreqDist: "set (map fst (FreqDist ws)) = set ws"
  by (induction ws rule: rev_induct) (auto simp: FreqDist_Nil FreqDist_snoc keys_freq_add)

lemma distinct_keys_FreqDist: "distinct (map fst (FreqDist ws))"
proof (induction ws rule: rev_induct)
  case Nil
  then show ?case by (simp add: FreqDist_Nil)
next
  case (snoc w ws)
  then show ?case
    using set_keys_FreqDist [of ws] by (simp add: FreqDist_snoc keys_freq_add)
qed

lemma map_of_FreqDist:
  "map_of (FreqDist ws) w = (if w \<in> set ws then Some (count_list ws w) else None)"
proof (induction ws rule: rev_induct)
  case Nil
  then show ?case by (simp add: FreqDist_Nil)
next
  case (snoc v ws)
  then show ?case by (auto simp: FreqDist_snoc map_of_freq_add)
qed

lemma FreqDist_count: "(w, c) \<in> set (FreqDist ws) \<Longrightarrow> c = count_list ws w \<and> w \<in> set ws"
proof -
  assume "(w, c) \<in> set (FreqDist ws)"
  then have "map_of (FreqDist ws) w = Some c"
    using distinct_keys_FreqDist [of ws] by simp
  then show ?thesis by (simp add: map_of_FreqDist split: if_splits)
qed

lemma keys_FreqDist_order:
  "sorted_wrt (\<lambda>a b. first_index a ws < first_index b ws) (map fst (FreqDist ws))"
proof (induction ws rule: rev_induct)
  case Nil
  then show ?case by (simp add: FreqDist_Nil)
next
  case (snoc w ws)
  let ?ks = "map fst (FreqDist ws)"
  have old: "sorted_wrt (\<lambda>a b. first_index a (ws @ [w]) < first_index b (ws @ [w])) ?ks"
  proof (rule sorted_wrt_mono_rel [OF _ snoc.IH])
    fix a b
    assume "a \<in> set ?ks" "b \<in> set ?ks" "first_index a ws < first_index b ws"
    then show "first_index a (ws @ [w]) < first_index b (ws @ [w])"
      using set_keys_FreqDist [of ws] by (simp add: first_index_append)
  qed
  show ?case
  proof (cases "w \<in> set ws")
    case True
    then show ?thesis
      using old set_keys_FreqDist [of ws] by (simp add: FreqDist_snoc keys_freq_add)
  next
    case False
    have new: "\<forall>a\<in>set ?ks. first_index a (ws @ [w]) < first_index w (ws @ [w])"
      using set_keys_FreqDist [of ws] False
      by (auto simp: first_index_append first_index_new first_index_less)
    have k: "map fst (FreqDist (ws @ [w])) = ?ks @ [w]"
      using False set_keys_FreqDist [of ws] by (simp add: FreqDist_snoc keys_freq_add)
    show ?thesis
      unfolding k using old new by (simp add: sorted_wrt_append)
  qed
qed

lemma sorted_wrt_insort_key:
  fixes f :: "'a \<Rightarrow> int"
  assumes "sorted_wrt (\<lambda>a b. f a < f b \<or> (f a = f b \<and> B a b)) ys"
    and "\<forall>y\<in>set ys. B x y"
  shows "sorted_wrt (\<lambda>a b. f a < f b \<or> (f a = f b \<and> B a b)) (insort_key f x ys)"
  using assms
proof (induction ys)
  case Nil
  then show ?case by simp
next
  case (Cons y ys)
  show ?case
  proof (cases "f x \<le> f y")
    case True
    have "\<forall>z\<in>set (y # ys). f x < f z \<or> (f x = f z \<and> B x z)"
      using True Cons.prems by fastforce
    with True Cons.prems(1) show ?thesis by simp
  next
    case False
    have "sorted_wrt (\<lambda>a b. f a < f b \<or> (f a = f b \<and> B a b)) (insort_key f x ys)"
      using Cons.IH Cons.prems by simp
    moreover have "\<forall>z\<in>set (insort_key f x ys). f y < f z \<or> (f y = f z \<and> B y z)"
      using False Cons.prems(1) by (auto simp: set_insort_key)
    ultimately show ?thesis using False by simp
  qed
qed

lemma sorted_wrt_sort_key:
  fixes f :: "'a \<Rightarrow> int"
  assumes "sorted_wrt B xs"
  shows "sorted_wrt (\<lambda>a b. f a < f b \<or> (f a = f b \<and> B a b)) (sort_key f xs)"
  using assms
proof (induction xs)
  case Nil
  then show ?case by simp
next
  case (Cons x xs)
  then have "sorted_wrt (\<lambda>a b. f a < f b \<or> (f a = f b \<and> B a b)) (sort_key f xs)"
    and "\<forall>y\<in>set (sort_key f xs). B x y"
    by simp_all
  then show ?case by (simp add: sorted_wrt_insort_key)
qed

lemma most_common_ranked:
  fixes fw :: "'a list" and K :: nat
  defines "ks \<equiv> map fst (most_common K (FreqDist fw))"
  shows "length ks \<le> K \<and> distinct ks \<and> set ks \<subseteq> set fw \<and>
         sorted_wrt (ranked_before fw) ks \<and>
         (\<forall>v\<in>set fw. v \<notin> set ks \<longrightarrow> length ks = K \<and> (\<forall>w\<in>set ks. ranked_before fw w v))"
proof -
  let ?f = "\<lambda>p :: 'a \<times> nat. - int (snd p)"
  let ?B = "\<lambda>a b :: 'a \<times> nat. first_index (fst a) fw < first_index (fst b) fw"
  let ?srt = "sort_key ?f (FreqDist fw)"
  let ?all = "map fst ?srt"
  have items: "sorted_wrt ?B (FreqDist fw)"
    using keys_FreqDist_order [of fw] by (simp add: sorted_wrt_map)
  have s1: "sorted_wrt (\<lambda>a b. ?f a < ?f b \<or> (?f a = ?f b \<and> ?B a b)) ?srt"
    by (rule sorted_wrt_sort_key [OF items])
  have s2: "sorted_wrt (\<lambda>p q. ranked_before fw (fst p) (fst q)) ?srt"
  proof (rule sorted_wrt_mono_rel [OF _ s1])
    fix p q
    assume p: "p \<in> set ?srt" and q: "q \<in> set ?srt"
      and r: "?f p < ?f q \<or> (?f p = ?f q \<and> ?B p q)"
    have cp: "snd p = count_list fw (fst p)"
      using p FreqDist_count [of "fst p" "snd p" fw] by simp
    have cq: "snd q = count_list fw (fst q)"
      using q FreqDist_count [of "fst q" "snd q" fw] by simp
    show "ranked_before fw (fst p) (fst q)"
      using r cp cq by (auto simp: ranked_before_def)
  qed
  have sall: "sorted_wrt (ranked_before fw) ?all"
    using s2 by (simp add: sorted_wrt_map)
  have dall: "distinct ?all"
  proof -
    have "mset ?all = mset (map fst (FreqDist fw))" by simp
    then show ?thesis
      using distinct_keys_FreqDist [of fw] by (metis distinct_count_atmost_1 set_mset_mset)
  qed
  have setall: "set ?all = set fw"
    using set_keys_FreqDist [of fw] by simp
  have ks: "ks = take K ?all"
    by (simp add: ks_def most_common_def take_map)
  have split: "?all = ks @ drop K ?all" by (simp add: ks)
  have sw: "sorted_wrt (ranked_before fw) (ks @ drop K ?all)"
    using sall split by simp
  have a: "length ks \<le> K" by (simp add: ks)
  have b: "distinct ks" using dall by (simp add: ks)
  have c: "set ks \<subseteq> set fw" using setall set_take_subset [of K ?all] by (simp add: ks)
  have d: "sorted_wrt (ranked_before fw) ks" using sw by (simp add: sorted_wrt_append)
  have e: "\<forall>v\<in>set fw. v \<notin> set ks \<longrightarrow> length ks = K \<and> (\<forall>w\<in>set ks. ranked_before fw w v)"
  proof (intro ballI impI)
    fix v assume "v \<in> set fw" "v \<notin> set ks"
    then have "v \<in> set (ks @ drop K ?all)" using setall split by simp
    with \<open>v \<notin> set ks\<close> have vd: "v \<in> set (drop K ?all)" by simp
    then have "K < length ?all" by (cases "K < length ?all") auto
    then have "length ks = K" by (simp add: ks)
    moreover have "\<forall>w\<in>set ks. ranked_before fw w v"
      using sw vd by (simp add: sorted_wrt_append)
    ultimately show "length ks = K \<and> (\<forall>w\<in>set ks. ranked_before fw w v)" by simp
  qed
  from a b c d e show ?thesis by simp
qed

lemma ranked_before_filter:
  assumes "P a" "P b" "a \<in> set xs" "b \<in> set xs"
  shows "ranked_before (filter P xs) a b = ranked_before xs a b"
  using assms by (simp add: ranked_before_def count_list_filter first_index_filter)

text \<open>
  Claim C8.  \<open>extract_keywords text K\<close> returns at most \<open>K\<close> tokens, pairwise distinct,
  each a token of the text that is alphanumeric, longer than 3 characters and not a
  stopword.  They are in ranked order: a token of higher frequency in the tokenized
  text comes first, and of two tokens of equal frequency the one whose first occurrence
  is earlier comes first.  They are the top of that ranking: a qualifying token is left
  out only when the list is full, and every listed token is ranked before it.
\<close>

theorem extract_keywords_ranked:
  assumes "safe_word_tokenize env text = Inr words" and "get_stopwords env = Inr sw"
  shows "\<exists>ks. extract_keywords env text K = Inr ks \<and> length ks \<le> K \<and> distinct ks \<and>
     (\<forall>w\<in>set ks. w \<in> set words \<and> str_isalnum w \<and> 3 < length w \<and> w \<notin> set sw) \<and>
     sorted_wrt (ranked_before words) ks \<and>
     (\<forall>v\<in>set words. content_word sw v \<and> v \<notin> set ks \<longrightarrow>
        length ks = K \<and> (\<forall>w\<in>set ks. ranked_before words w v))"
proof -
  let ?fw = "filter (content_word sw) words"
  let ?ks = "map fst (most_common K (FreqDist ?fw))"
  have r: "extract_keywords env text K = Inr ?ks"
    using assms by (simp add: extract_keywords_def)
  from most_common_ranked [of K ?fw]
  have a: "length ?ks \<le> K" and b: "distinct ?ks" and c: "set ?ks \<subseteq> set ?fw"
    and d: "sorted_wrt (ranked_before ?fw) ?ks"
    and e: "\<forall>v\<in>set ?fw. v \<notin> set ?ks \<longrightarrow>
              length ?ks = K \<and> (\<forall>w\<in>set ?ks. ranked_before ?fw w v)"
    by simp_all
  have c': "\<forall>w\<in>set ?ks. w \<in> set words \<and> str_isalnum w \<and> 3 < length w \<and> w \<notin> set sw"
    using c by (auto simp: content_word_def)
  have d': "sorted_wrt (ranked_before words) ?ks"
  proof (rule sorted_wrt_mono_rel [OF _ d])
    fix x y assume "x \<in> set ?ks" "y \<in> set ?ks" "ranked_before ?fw x y"
    then show "ranked_before words x y"
      using c ranked_before_filter [of "content_word sw" x y words] by auto
  qed
  have e': "\<forall>v\<in>set words. content_word sw v \<and> v \<notin> set ?ks \<longrightarrow>
        length ?ks = K \<and> (\<forall>w\<in>set ?ks. ranked_before words w v)"
  proof (intro ballI impI)
    fix v assume v: "v \<in> set words" and h: "content_word sw v \<and> v \<notin> set ?ks"
    then have vf: "v \<in> set ?fw" by simp
    have "length ?ks = K \<and> (\<forall>w\<in>set ?ks. ranked_before ?fw w v)"
      using bspec [OF e vf] h by simp
    then have l: "length ?ks = K" and rb: "\<forall>w\<in>set ?ks. ranked_before ?fw w v"
      by simp_all
    have "\<forall>w\<in>set ?ks. ranked_before words w v"
    proof
      fix w assume w: "w \<in> set ?ks"
      then have "w \<in> set ?fw" using c by auto
      then have cw: "content_word sw w" and ww: "w \<in> set words" by simp_all
      have cv: "content_word sw v" using h by simp
      have "ranked_before ?fw w v" by (rule bspec [OF rb w])
      then show "ranked_before words w v"
        by (simp only: ranked_before_filter [of "content_word sw" w v words, OF cw cv ww v])
    qed
    with l show "length ?ks = K \<and> (\<forall>w\<in>set ?ks. ranked_before words w v)" by simp
  qed
  from r a b c' d' e' show ?thesis by (intro exI conjI)
qed

theorem extract_keywords_ranked_witness:
  "safe_word_tokenize unavailable shark_text =
     Inr [''the'', ''shark'', ''and'', ''the'', ''whale'', ''swim'', ''but'', ''the'',
          ''whale'', ''and'', ''the'', ''shark'', ''dive''] \<and>
   extract_keywords unavailable shark_text 3 = Inr [''shark'', ''whale'', ''swim''] \<and>
   sorted_wrt
     (ranked_before [''the'', ''shark'', ''and'', ''the'', ''whale'', ''swim'', ''but'', ''the'',
          ''whale'', ''and'', ''the'', ''shark'', ''dive''])
     [''shark'', ''whale'', ''swim'']"
proof -
  let ?ws = "[''the'', ''shark'', ''and'', ''the'', ''whale'', ''swim'', ''but'', ''the'',
          ''whale'', ''and'', ''the'', ''shark'', ''dive'']"
  have t: "safe_word_tokenize unavailable shark_text = Inr ?ws" by code_simp
  obtain sw where s: "get_stopwords unavailable = Inr sw"
    using get_stopwords_returns [of unavailable] by (elim exE)
  have v: "extract_keywords unavailable shark_text 3 = Inr [''shark'', ''whale'', ''swim'']"
    by code_simp
  from extract_keywords_ranked [OF t s, of 3] v
  have "sorted_wrt (ranked_before ?ws) [''shark'', ''whale'', ''swim'']" by auto
  with t v show ?thesis by simp
qed

end
